theory Spec2Isabelle
  imports Complex_Main
begin

section \<open>Editor state (class State of app.js)\<close>

text \<open>
  The tool names are the five strings the application ever stores in \<open>currentTool\<close>.
  Snapshots are the strings returned by \<open>toDataURL\<close>; the history functions never look
  inside them, so their type is a parameter.  \<open>zoom\<close>, \<open>panX\<close> and \<open>panY\<close> are JavaScript
  numbers that no function below computes with; they are carried along unchanged.
  The subscriber set is left out: every registered callback only redraws the display
  canvas and the widgets, so \<open>notify\<close> has no effect on the fields modelled here.
\<close>

datatype tool = Pencil | Eraser | Fill | Eyedropper | Hand

record 's State =
  width :: int
  height :: int
  zoom :: real
  panX :: real
  panY :: real
  currentColor :: string
  currentTool :: tool
  brushSize :: int
  settingsVisible :: bool
  isDrawing :: bool
  isPanning :: bool
  history :: "'s list"
  redoStack :: "'s list"
  maxHistory :: nat

definition State_new :: "'s State" where
  "State_new = \<lparr> width = 16, height = 16, zoom = 30, panX = 0, panY = 0,
     currentColor = ''#38bdf8'', currentTool = Pencil, brushSize = 1,
     settingsVisible = False, isDrawing = False, isPanning = False,
     history = [], redoStack = [], maxHistory = 50 \<rparr>"

text \<open>
  \<open>saveHistory\<close>: push, then one \<open>shift\<close> if the length exceeds \<open>maxHistory\<close>, then the
  redo stack is replaced by the empty array.
\<close>

definition saveHistory :: "'s \<Rightarrow> 's State \<Rightarrow> 's State" where
  "saveHistory dataURL st =
     (let h = history st @ [dataURL];
          h' = (if length h > maxHistory st then tl h else h)
      in st\<lparr> history := h', redoStack := [] \<rparr>)"

text \<open>
  \<open>performUndo\<close> and \<open>performRedo\<close> return the snapshot to restore (\<open>None\<close> for the
  source's \<open>null\<close>) together with the updated state.
\<close>

definition performUndo :: "'s State \<Rightarrow> 's option \<times> 's State" where
  "performUndo st =
     (if length (history st) \<le> 1 then (None, st)
      else let current = last (history st);
               h = butlast (history st)
           in (Some (last h), st\<lparr> history := h, redoStack := redoStack st @ [current] \<rparr>))"

definition performRedo :: "'s State \<Rightarrow> 's option \<times> 's State" where
  "performRedo st =
     (if length (redoStack st) = 0 then (None, st)
      else let next = last (redoStack st)
           in (Some next, st\<lparr> redoStack := butlast (redoStack st),
                              history := history st @ [next] \<rparr>))"

section \<open>Raster buffer (the ImageData byte array)\<close>

text \<open>
  The work canvas is modelled by the byte array that \<open>getImageData(0, 0, width, height)\<close>
  returns for it: four bytes per cell, row by row, so \<open>4 * width * height\<close> entries.
  The canvas keeps the dimensions of the state (every handler that changes one changes
  the other).  A JavaScript value read from an array is a number or \<open>undefined\<close>
  (\<open>None\<close>): a read outside the array gives \<open>undefined\<close>, a write outside a typed array
  is dropped, and a \<open>Uint8ClampedArray\<close> stores \<open>undefined\<close> as 0 and clamps to 255.
\<close>

type_synonym jsval = "nat option"

type_synonym color = "jsval \<times> jsval \<times> jsval \<times> jsval"

definition data_get :: "nat list \<Rightarrow> int \<Rightarrow> jsval" where
  "data_get d i = (if 0 \<le> i \<and> i < int (length d) then Some (d ! nat i) else None)"

definition data_set :: "nat list \<Rightarrow> int \<Rightarrow> jsval \<Rightarrow> nat list" where
  "data_set d i v =
     (if 0 \<le> i \<and> i < int (length d)
      then d[nat i := (case v of None \<Rightarrow> 0 | Some n \<Rightarrow> min n 255)] else d)"

definition getPixelColor :: "'s State \<Rightarrow> int \<Rightarrow> int \<Rightarrow> nat list \<Rightarrow> color" where
  "getPixelColor st x y d =
     (let i = (y * width st + x) * 4
      in (data_get d i, data_get d (i + 1), data_get d (i + 2), data_get d (i + 3)))"

fun setPixelData :: "'s State \<Rightarrow> int \<Rightarrow> int \<Rightarrow> nat list \<Rightarrow> color \<Rightarrow> nat list" where
  "setPixelData st x y d (r, g, b, a) =
     (let i = (y * width st + x) * 4
      in data_set (data_set (data_set (data_set d i r) (i + 1) g) (i + 2) b) (i + 3) a)"

fun colorsMatch :: "color \<Rightarrow> color \<Rightarrow> bool" where
  "colorsMatch (r1, g1, b1, a1) (r2, g2, b2, a2) =
     (r1 = r2 \<and> g1 = g2 \<and> b1 = b2 \<and> a1 = a2)"

section \<open>Colour strings\<close>

text \<open>
  \<open>hexToRgb\<close> matches \<open>/^#?([a-f\d]{2})([a-f\d]{2})([a-f\d]{2})$/i\<close>.  The character class
  with the \<open>i\<close> flag is the digits and the letters a to f in either case.  \<open>regex_exec\<close>
  returns the three captured groups: an initial \<open>#\<close> is consumed when present (the
  alternative of skipping it fails at once, \<open>#\<close> not being in the class), and what
  follows must be six characters of the class up to the end of the string.
\<close>

definition is_hex_digit :: "char \<Rightarrow> bool" where
  "is_hex_digit c =
     (let n = (of_char c :: nat)
      in (48 \<le> n \<and> n \<le> 57) \<or> (97 \<le> n \<and> n \<le> 102) \<or> (65 \<le> n \<and> n \<le> 70))"

definition hex_val :: "char \<Rightarrow> nat" where
  "hex_val c =
     (let n = (of_char c :: nat)
      in if 48 \<le> n \<and> n \<le> 57 then n - 48
         else if 97 \<le> n \<and> n \<le> 102 then n - 87
         else if 65 \<le> n \<and> n \<le> 70 then n - 55
         else 0)"

definition parseInt16 :: "string \<Rightarrow> nat" where
  "parseInt16 s = foldl (\<lambda>n c. n * 16 + hex_val c) 0 s"

definition regex_exec :: "string \<Rightarrow> (string \<times> string \<times> string) option" where
  "regex_exec hex =
     (let t = (case hex of [] \<Rightarrow> [] | c # r \<Rightarrow> if c = CHR ''#'' then r else hex)
      in if length t = 6 \<and> list_all is_hex_digit t
         then Some (take 2 t, take 2 (drop 2 t), drop 4 t) else None)"

definition hexToRgb :: "string \<Rightarrow> color" where
  "hexToRgb hex =
     (case regex_exec hex of
        Some (r, g, b) \<Rightarrow> (Some (parseInt16 r), Some (parseInt16 g), Some (parseInt16 b), Some 255)
      | None \<Rightarrow> (Some 0, Some 0, Some 0, Some 255))"

text \<open>
  \<open>Number.prototype.toString(16)\<close> on a natural number, \<open>String.prototype.toLowerCase\<close>
  on ASCII letters and \<open>padStart(2, '0')\<close>, as \<open>pickColor\<close> and \<open>buildColor\<close> use them.
\<close>

definition hex_char :: "nat \<Rightarrow> char" where
  "hex_char n = ''0123456789abcdef'' ! (n mod 16)"

fun toString16 :: "nat \<Rightarrow> string" where
  "toString16 n = (if n < 16 then [hex_char n] else toString16 (n div 16) @ [hex_char (n mod 16)])"

declare toString16.simps [simp del]

definition toLowerCase :: "string \<Rightarrow> string" where
  "toLowerCase s =
     map (\<lambda>c. let n = (of_char c :: nat) in if 65 \<le> n \<and> n \<le> 90 then char_of (n + 32) else c) s"

definition padStart2 :: "string \<Rightarrow> string" where
  "padStart2 s = replicate (2 - length s) CHR ''0'' @ s"

text \<open>
  \<open>UIController.buildColor\<close>; \<open>alpha\<close> is the integer of the alpha slider, so
  \<open>Math.round\<close> leaves it as it is.
\<close>

definition buildColor :: "string \<Rightarrow> nat \<Rightarrow> string" where
  "buildColor hex6 alpha =
     (if alpha \<ge> 255 then toLowerCase hex6
      else toLowerCase hex6 @ padStart2 (toString16 alpha))"

section \<open>Tool manager (class ToolManager)\<close>

text \<open>
  The tool manager holds the state, the 2D context of the work canvas and the last
  stroke point.  \<open>fillRect\<close> and \<open>clearRect\<close> belong to the browser: a rectangle with a
  negative extent is normalised, the part inside the canvas is painted.  What painting
  a cell with a given \<open>fillStyle\<close> string leaves there (source-over compositing of the
  parsed colour) is the parameter \<open>blend\<close>.
\<close>

record 's ToolManager =
  state :: "'s State"
  workCtx :: "nat list"
  lastX :: int
  lastY :: int

definition ToolManager_new :: "'s State \<Rightarrow> nat list \<Rightarrow> 's ToolManager" where
  "ToolManager_new st ctx = \<lparr> state = st, workCtx = ctx, lastX = - 1, lastY = - 1 \<rparr>"

definition rect_cells :: "'s State \<Rightarrow> int \<times> int \<times> int \<times> int \<Rightarrow> (int \<times> int) list" where
  "rect_cells st r =
     (case r of (x, y, w, h) \<Rightarrow>
        [(i, j). j \<leftarrow> [max 0 (min y (y + h)) .. min (height st) (max y (y + h)) - 1],
                 i \<leftarrow> [max 0 (min x (x + w)) .. min (width st) (max x (x + w)) - 1]])"

definition fillRect ::
  "(string \<Rightarrow> color \<Rightarrow> color) \<Rightarrow> string \<Rightarrow> int \<times> int \<times> int \<times> int \<Rightarrow>
   's ToolManager \<Rightarrow> 's ToolManager" where
  "fillRect blend fillStyle r tm =
     tm\<lparr> workCtx :=
       foldl (\<lambda>d c. setPixelData (state tm) (fst c) (snd c) d
                       (blend fillStyle (getPixelColor (state tm) (fst c) (snd c) d)))
             (workCtx tm) (rect_cells (state tm) r) \<rparr>"

definition clearRect :: "int \<times> int \<times> int \<times> int \<Rightarrow> 's ToolManager \<Rightarrow> 's ToolManager" where
  "clearRect r tm =
     tm\<lparr> workCtx :=
       foldl (\<lambda>d c. setPixelData (state tm) (fst c) (snd c) d (Some 0, Some 0, Some 0, Some 0))
             (workCtx tm) (rect_cells (state tm) r) \<rparr>"

text \<open>
  \<open>drawPixel\<close>: the rectangle handed to \<open>fillRect\<close> or \<open>clearRect\<close> is computed first
  (\<open>brushSize || 1\<close> replaces 0 by 1; \<open>Math.floor(b / 2)\<close> is \<open>div\<close>).
\<close>

definition drawPixel_rect :: "'s State \<Rightarrow> int \<Rightarrow> int \<Rightarrow> int \<times> int \<times> int \<times> int" where
  "drawPixel_rect st x y =
     (let b = (if brushSize st = 0 then 1 else brushSize st);
          half = b div 2;
          px = x - half;
          py = y - half;
          cx = max 0 px;
          cy = max 0 py;
          cw = min b (width st - cx);
          ch = min b (height st - cy)
      in (cx, cy, cw, ch))"

definition drawPixel ::
  "(string \<Rightarrow> color \<Rightarrow> color) \<Rightarrow> int \<Rightarrow> int \<Rightarrow> string \<Rightarrow> 's ToolManager \<Rightarrow> 's ToolManager" where
  "drawPixel blend x y color tm =
     (if currentTool (state tm) = Eraser then clearRect (drawPixel_rect (state tm) x y) tm
      else fillRect blend color (drawPixel_rect (state tm) x y) tm)"

text \<open>
  \<open>drawLine\<close>: the \<open>while (true)\<close> loop may in principle run forever, so it is a partial
  function; \<open>None\<close> stands for not returning.  The call of \<open>drawPixel\<close> in the loop body
  is the parameter \<open>stamp\<close>, the drawing surface it works on is \<open>c\<close>.
\<close>

partial_function (option) drawLine_loop ::
  "(int \<Rightarrow> int \<Rightarrow> 'c \<Rightarrow> 'c) \<Rightarrow> int \<Rightarrow> int \<Rightarrow> int \<Rightarrow> int \<Rightarrow> int \<Rightarrow> int \<Rightarrow>
   int \<Rightarrow> int \<Rightarrow> int \<Rightarrow> 'c \<Rightarrow> 'c option" where
  [code]: "drawLine_loop stamp dx dy sx sy x1 y1 err x0 y0 c =
     (let c' = stamp x0 y0 c
      in if x0 = x1 \<and> y0 = y1 then Some c'
         else let e2 = 2 * err;
                  err' = (if e2 > - dy then err - dy else err);
                  x0' = (if e2 > - dy then x0 + sx else x0);
                  err'' = (if e2 < dx then err' + dx else err');
                  y0' = (if e2 < dx then y0 + sy else y0)
              in drawLine_loop stamp dx dy sx sy x1 y1 err'' x0' y0' c')"

definition drawLine ::
  "(int \<Rightarrow> int \<Rightarrow> 'c \<Rightarrow> 'c) \<Rightarrow> int \<Rightarrow> int \<Rightarrow> int \<Rightarrow> int \<Rightarrow> 'c \<Rightarrow> 'c option" where
  "drawLine stamp x0 y0 x1 y1 c =
     (let dx = \<bar>x1 - x0\<bar>; dy = \<bar>y1 - y0\<bar>;
          sx = (if x0 < x1 then 1 else - 1); sy = (if y0 < y1 then 1 else - 1);
          err = dx - dy
      in drawLine_loop stamp dx dy sx sy x1 y1 err x0 y0 c)"

text \<open>
  \<open>floodFill\<close>: the queue is a list, \<open>shift\<close> takes its head and \<open>push\<close> appends.  The
  loop is again a partial function.  The early \<open>return\<close> leaves the canvas alone;
  otherwise \<open>putImageData\<close> stores the array the loop worked on.
\<close>

partial_function (option) floodFill_loop ::
  "'s State \<Rightarrow> color \<Rightarrow> color \<Rightarrow> (int \<times> int) list \<Rightarrow> nat list \<Rightarrow> nat list option" where
  [code]: "floodFill_loop st targetColor fillRGBA queue d =
     (case queue of
        [] \<Rightarrow> Some d
      | (x, y) # rest \<Rightarrow>
          (let currentColor = getPixelColor st x y d
           in if colorsMatch currentColor targetColor
              then let d' = setPixelData st x y d fillRGBA;
                       q1 = (if x > 0 then rest @ [(x - 1, y)] else rest);
                       q2 = (if x < width st - 1 then q1 @ [(x + 1, y)] else q1);
                       q3 = (if y > 0 then q2 @ [(x, y - 1)] else q2);
                       q4 = (if y < height st - 1 then q3 @ [(x, y + 1)] else q3)
                   in floodFill_loop st targetColor fillRGBA q4 d'
              else floodFill_loop st targetColor fillRGBA rest d))"

definition floodFill :: "int \<Rightarrow> int \<Rightarrow> string \<Rightarrow> 's ToolManager \<Rightarrow> 's ToolManager option" where
  "floodFill startX startY fillColor tm =
     (let d = workCtx tm;
          targetColor = getPixelColor (state tm) startX startY d;
          fillRGBA = hexToRgb fillColor
      in if colorsMatch targetColor fillRGBA then Some tm
         else map_option (\<lambda>d'. tm\<lparr> workCtx := d' \<rparr>)
                (floodFill_loop (state tm) targetColor fillRGBA [(startX, startY)] d))"

text \<open>
  \<open>pickColor\<close> reads one pixel with \<open>getImageData(x, y, 1, 1)\<close>, which gives transparent
  black for a pixel outside the canvas.
\<close>

definition getImageData1 :: "'s ToolManager \<Rightarrow> int \<Rightarrow> int \<Rightarrow> nat \<times> nat \<times> nat \<times> nat" where
  "getImageData1 tm x y =
     (case getPixelColor (state tm) x y (workCtx tm) of
        (Some r, Some g, Some b, Some a) \<Rightarrow>
          if 0 \<le> x \<and> x < width (state tm) \<and> 0 \<le> y \<and> y < height (state tm)
          then (r, g, b, a) else (0, 0, 0, 0)
      | _ \<Rightarrow> (0, 0, 0, 0))"

definition pickColor :: "int \<Rightarrow> int \<Rightarrow> 's ToolManager \<Rightarrow> 's ToolManager" where
  "pickColor x y tm =
     (case getImageData1 tm x y of
        (r, g, b, a) \<Rightarrow>
          if a > 0
          then tm\<lparr> state := (state tm)\<lparr> currentColor :=
                  CHR ''#'' # tl (toString16 (2 ^ 24 + r * 2 ^ 16 + g * 2 ^ 8 + b)) \<rparr> \<rparr>
          else tm)"

text \<open>
  \<open>execute\<close> returns the signal (\<open>None\<close> for \<open>undefined\<close>) and the updated tool manager,
  and \<open>None\<close> as a whole if a loop inside does not return.  Its first line is the
  bounds guard.  The pointer-up handler calls \<open>execute('end')\<close> without coordinates:
  \<open>x\<close> and \<open>y\<close> are \<open>undefined\<close> there, each comparison of the guard is false, and the
  \<open>'end'\<close> case runs; that call is \<open>execute_end\<close>.
\<close>

datatype action = Start | Move | End

datatype signal = SHOULD_SAVE_HISTORY

definition end_case :: "'s ToolManager \<Rightarrow> signal option \<times> 's ToolManager" where
  "end_case tm =
     (if isDrawing (state tm)
      then (Some SHOULD_SAVE_HISTORY, tm\<lparr> state := (state tm)\<lparr> isDrawing := False \<rparr> \<rparr>)
      else (None, tm))"

definition execute ::
  "(string \<Rightarrow> color \<Rightarrow> color) \<Rightarrow> action \<Rightarrow> int \<Rightarrow> int \<Rightarrow> 's ToolManager \<Rightarrow>
   (signal option \<times> 's ToolManager) option" where
  "execute blend act x y tm =
     (if x < 0 \<or> x \<ge> width (state tm) \<or> y < 0 \<or> y \<ge> height (state tm) then Some (None, tm)
      else
        let tool = currentTool (state tm);
            color = currentColor (state tm)
        in case act of
             Start \<Rightarrow>
               (let tm1 = tm\<lparr> state := (state tm)\<lparr> isDrawing := True \<rparr> \<rparr>
                in if tool = Fill then map_option (Pair None) (floodFill x y color tm1)
                   else if tool = Eyedropper then Some (None, pickColor x y tm1)
                   else Some (None, (drawPixel blend x y color tm1)\<lparr> lastX := x, lastY := y \<rparr>))
           | Move \<Rightarrow>
               (if \<not> isDrawing (state tm) then Some (None, tm)
                else if tool = Pencil \<or> tool = Eraser
                then map_option (\<lambda>tm'. (None, tm'\<lparr> lastX := x, lastY := y \<rparr>))
                       (drawLine (\<lambda>px py. drawPixel blend px py color) (lastX tm) (lastY tm) x y tm)
                else Some (None, tm))
           | End \<Rightarrow> Some (end_case tm))"

definition execute_end :: "'s ToolManager \<Rightarrow> signal option \<times> 's ToolManager" where
  "execute_end tm = end_case tm"

section \<open>Pointer handlers (App.initDrawingEvents)\<close>

text \<open>
  The two handlers that drive a click.  \<open>toDataURL\<close> is the browser's encoding of the
  work canvas (its dimensions and bytes); the cell under the pointer, which
  \<open>screenToPixel\<close> computes with floating-point division, is given.
\<close>

record MouseEvent =
  button :: nat
  altKey :: bool

definition commit ::
  "(int \<times> int \<times> nat list \<Rightarrow> 's) \<Rightarrow> signal option \<times> 's ToolManager \<Rightarrow> 's ToolManager" where
  "commit toDataURL r =
     (case r of (sig, tm) \<Rightarrow>
        if sig = Some SHOULD_SAVE_HISTORY
        then tm\<lparr> state := saveHistory
                 (toDataURL (width (state tm), height (state tm), workCtx tm)) (state tm) \<rparr>
        else tm)"

definition onmousedown ::
  "(string \<Rightarrow> color \<Rightarrow> color) \<Rightarrow> (int \<times> int \<times> nat list \<Rightarrow> 's) \<Rightarrow> MouseEvent \<Rightarrow>
   int \<Rightarrow> int \<Rightarrow> 's ToolManager \<Rightarrow> 's ToolManager option" where
  "onmousedown blend toDataURL e x y tm =
     (if button e = 1 \<or>
         (button e = 0 \<and> (altKey e \<or> isPanning (state tm) \<or> currentTool (state tm) = Hand))
      then Some (tm\<lparr> state := (state tm)\<lparr> isPanning := True \<rparr> \<rparr>)
      else if button e = 0
      then map_option (commit toDataURL) (execute blend Start x y tm)
      else Some tm)"

definition onmouseup ::
  "(int \<times> int \<times> nat list \<Rightarrow> 's) \<Rightarrow> 's ToolManager \<Rightarrow> 's ToolManager" where
  "onmouseup toDataURL tm =
     (let tm1 = commit toDataURL (execute_end tm)
      in tm1\<lparr> state := (state tm1)\<lparr> isPanning := False \<rparr> \<rparr>)"

section \<open>Notions the properties are stated with\<close>

text \<open>
  A cell is inside the grid; two cells are 4-neighbours; \<open>region st d s\<close> is the
  4-connected component of the seed \<open>s\<close> among the cells of the seed's colour in \<open>d\<close>.
\<close>

definition inb :: "'s State \<Rightarrow> int \<times> int \<Rightarrow> bool" where
  "inb st c = (0 \<le> fst c \<and> fst c < width st \<and> 0 \<le> snd c \<and> snd c < height st)"

definition px :: "'s State \<Rightarrow> nat list \<Rightarrow> int \<times> int \<Rightarrow> color" where
  "px st d c = getPixelColor st (fst c) (snd c) d"

definition adj4 :: "int \<times> int \<Rightarrow> int \<times> int \<Rightarrow> bool" where
  "adj4 c c' =
     (c' = (fst c - 1, snd c) \<or> c' = (fst c + 1, snd c) \<or>
      c' = (fst c, snd c - 1) \<or> c' = (fst c, snd c + 1))"

inductive_set region :: "'s State \<Rightarrow> nat list \<Rightarrow> int \<times> int \<Rightarrow> (int \<times> int) set"
  for st :: "'s State" and d :: "nat list" and s :: "int \<times> int" where
  seed: "s \<in> region st d s"
| step: "c \<in> region st d s \<Longrightarrow> adj4 c c' \<Longrightarrow> inb st c' \<Longrightarrow> px st d c' = px st d s \<Longrightarrow>
         c' \<in> region st d s"

text \<open>
  Consecutive cells of a path differ by at most one in each coordinate.
\<close>

fun near :: "int \<times> int \<Rightarrow> int \<times> int \<Rightarrow> bool" where
  "near (x, y) (x', y') = (\<bar>x' - x\<bar> \<le> 1 \<and> \<bar>y' - y\<bar> \<le> 1)"

fun chain8 :: "(int \<times> int) list \<Rightarrow> bool" where
  "chain8 [] = True"
| "chain8 [p] = True"
| "chain8 (p # q # ps) = (near p q \<and> chain8 (q # ps))"

text \<open>
  The brush square of size \<open>b\<close> around a centre, cut to the grid; and the strings made
  of an optional \<open>#\<close> and exactly six hexadecimal digits.
\<close>

definition brush_square :: "'s State \<Rightarrow> int \<Rightarrow> int \<Rightarrow> (int \<times> int) set" where
  "brush_square st cx cy =
     (let b = brushSize st
      in {(i, j). cx - b div 2 \<le> i \<and> i < cx - b div 2 + b \<and> 0 \<le> i \<and> i < width st \<and>
                  cy - b div 2 \<le> j \<and> j < cy - b div 2 + b \<and> 0 \<le> j \<and> j < height st})"

definition hex6_form :: "string \<Rightarrow> bool" where
  "hex6_form s =
     (\<exists>ds. (s = ds \<or> s = CHR ''#'' # ds) \<and> length ds = 6 \<and> (\<forall>c \<in> set ds. is_hex_digit c))"

text \<open>
  For the flood fill: a colour whose four channels are numbers that a clamped byte
  holds unchanged; the queue after the four conditional pushes of the loop body; and
  the invariant of the loop.  With \<open>d0\<close> the bytes at entry, \<open>s\<close> the seed and \<open>f\<close> the
  fill colour, the invariant says that every queued cell is inside the grid and, if it
  has the seed's colour in \<open>d0\<close>, belongs to the seed's region; that every cell either
  still has its colour of \<open>d0\<close> or is a region cell now coloured \<open>f\<close>; that every
  neighbour of a filled cell that still has the seed's colour is queued; and that the
  seed is queued or filled.
\<close>

fun byte_val :: "jsval \<Rightarrow> bool" where
  "byte_val None = False"
| "byte_val (Some n) = (n \<le> 255)"

fun valid_rgba :: "color \<Rightarrow> bool" where
  "valid_rgba (r, g, b, a) = (byte_val r \<and> byte_val g \<and> byte_val b \<and> byte_val a)"

definition pushed :: "'s State \<Rightarrow> int \<Rightarrow> int \<Rightarrow> (int \<times> int) list \<Rightarrow> (int \<times> int) list" where
  "pushed st x y rest =
     (let q1 = (if x > 0 then rest @ [(x - 1, y)] else rest);
          q2 = (if x < width st - 1 then q1 @ [(x + 1, y)] else q1);
          q3 = (if y > 0 then q2 @ [(x, y - 1)] else q2);
          q4 = (if y < height st - 1 then q3 @ [(x, y + 1)] else q3)
      in q4)"

definition fill_inv ::
  "'s State \<Rightarrow> nat list \<Rightarrow> int \<times> int \<Rightarrow> color \<Rightarrow> (int \<times> int) list \<Rightarrow> nat list \<Rightarrow> bool" where
  "fill_inv st d0 s f q d =
     (length d = length d0 \<and>
      (\<forall>c \<in> set q. inb st c \<and> (px st d0 c = px st d0 s \<longrightarrow> c \<in> region st d0 s)) \<and>
      (\<forall>c. inb st c \<longrightarrow> px st d c = px st d0 c \<or> (c \<in> region st d0 s \<and> px st d c = f)) \<and>
      (\<forall>c n. c \<in> region st d0 s \<and> px st d c = f \<and> adj4 c n \<and> inb st n \<and>
             px st d n = px st d0 s \<longrightarrow> n \<in> set q) \<and>
      (s \<in> set q \<or> px st d s = f))"

definition black :: color where
  "black = (Some 0, Some 0, Some 0, Some 255)"

section \<open>Concrete inputs\<close>

text \<open>
  A two by two grid whose first cell is opaque, a paint function for opaque colours
  (the painted cell takes the parsed colour), a snapshot encoding that keeps the bytes,
  a plain left click, and tool managers for the eyedropper, for a pencil stroke in
  progress and for a brush of size two.
\<close>

definition opaque_paint :: "string \<Rightarrow> color \<Rightarrow> color" where
  "opaque_paint fillStyle c = hexToRgb fillStyle"

definition bytes_of :: "int \<times> int \<times> nat list \<Rightarrow> nat list" where
  "bytes_of r = snd (snd r)"

definition left_click :: MouseEvent where
  "left_click = \<lparr> button = 0, altKey = False \<rparr>"

definition grid2 :: "nat list" where
  "grid2 = [255, 0, 10, 255,  0, 0, 0, 0,  0, 0, 0, 0,  0, 0, 0, 0]"

definition dropper_tm :: "nat list ToolManager" where
  "dropper_tm = ToolManager_new
     (State_new\<lparr> width := 2, height := 2, currentTool := Eyedropper,
                 history := [[1]], redoStack := [[2]] \<rparr>) grid2"

definition dropper_tm_down :: "nat list ToolManager" where
  "dropper_tm_down = ToolManager_new
     (State_new\<lparr> width := 2, height := 2, currentTool := Eyedropper,
                 history := [[1]], redoStack := [[2]],
                 isDrawing := True, currentColor := ''#ff000a'' \<rparr>) grid2"

definition pencil_tm :: "nat list ToolManager" where
  "pencil_tm = ToolManager_new
     (State_new\<lparr> width := 2, height := 2, isDrawing := True \<rparr>) grid2"

definition brush2_tm :: "nat list ToolManager" where
  "brush2_tm = ToolManager_new (State_new\<lparr> width := 2, height := 2, brushSize := 2 \<rparr>) grid2"

definition brush2_st :: "nat list State" where
  "brush2_st = State_new\<lparr> brushSize := 2 \<rparr>"

definition fill_tm :: "nat list ToolManager" where
  "fill_tm = ToolManager_new
     (State_new\<lparr> width := 2, height := 2, currentTool := Fill, currentColor := ''#010203'' \<rparr>) grid2"

section \<open>History: eviction and the undo/redo round trip\<close>

lemma saveHistory_history:
  "history (saveHistory s st) =
     (if length (history st) < maxHistory st then history st @ [s]
      else tl (history st @ [s]))"
  by (simp add: saveHistory_def Let_def)

lemma saveHistory_redoStack: "redoStack (saveHistory s st) = []"
  by (simp add: saveHistory_def Let_def)

lemma saveHistory_maxHistory: "maxHistory (saveHistory s st) = maxHistory st"
  by (simp add: saveHistory_def Let_def)

lemma saveHistory_last: "0 < maxHistory st \<Longrightarrow> last (history (saveHistory s st)) = s"
  by (cases "history st") (simp_all add: saveHistory_history)

lemma saveHistory_length:
  "length (history st) \<le> maxHistory st \<Longrightarrow> 0 < maxHistory st \<Longrightarrow>
   length (history (saveHistory s st)) \<le> maxHistory st"
  by (simp add: saveHistory_history)

lemma saveHistory_drop:
  "length (history st) \<le> maxHistory st \<Longrightarrow>
   history (saveHistory s st) =
     drop (length (history st @ [s]) - maxHistory st) (history st @ [s])"
  by (cases "history st") (auto simp: saveHistory_history)

lemma foldl_saveHistory_maxHistory:
  "maxHistory (foldl (\<lambda>st s. saveHistory s st) st ss) = maxHistory st"
  by (induction ss arbitrary: st) (simp_all add: saveHistory_maxHistory)

lemma foldl_saveHistory_drop:
  "length (history st) \<le> maxHistory st \<Longrightarrow> 0 < maxHistory st \<Longrightarrow>
   history (foldl (\<lambda>st s. saveHistory s st) st ss) =
     drop (length (history st @ ss) - maxHistory st) (history st @ ss)"
proof (induction ss arbitrary: st)
  case Nil
  then show ?case by simp
next
  case (Cons s ss)
  let ?st = "saveHistory s st"
  have len: "length (history ?st) \<le> maxHistory ?st"
    using Cons.prems by (simp add: saveHistory_length saveHistory_maxHistory)
  have h: "history ?st = drop (length (history st @ [s]) - maxHistory st) (history st @ [s])"
    using Cons.prems(1) by (rule saveHistory_drop)
  have "history (foldl (\<lambda>st s. saveHistory s st) ?st ss) =
          drop (length (history ?st @ ss) - maxHistory st) (history ?st @ ss)"
    using Cons.IH [OF len] Cons.prems(2) by (simp add: saveHistory_maxHistory)
  also have "\<dots> = drop (length (history st @ s # ss) - maxHistory st) (history st @ s # ss)"
  proof (cases "length (history st) < maxHistory st")
    case True
    then show ?thesis by (simp add: saveHistory_history)
  next
    case False
    then have eq: "length (history st) = maxHistory st" using Cons.prems(1) by simp
    then obtain a t where at: "history st = a # t"
      using Cons.prems(2) by (cases "history st") auto
    have m: "maxHistory st = Suc (length t)" using eq at by simp
    show ?thesis by (simp add: saveHistory_history at m)
  qed
  finally show ?case by simp
qed

text \<open>
  C5.  Whatever the two stacks held before, after \<open>saveHistory S1\<close> and \<open>saveHistory S2\<close>
  the call \<open>performUndo\<close> returns \<open>S1\<close>, leaves \<open>S1\<close> on top of \<open>history\<close> and moves \<open>S2\<close>
  onto \<open>redoStack\<close>; \<open>performRedo\<close> called right after returns \<open>S2\<close>.
\<close>

theorem undo_redo_after_two_saves:
  assumes "maxHistory st = 50"
  shows "(let st2 = saveHistory S2 (saveHistory S1 st);
              (u, st3) = performUndo st2;
              (r, st4) = performRedo st3
          in u = Some S1 \<and> last (history st3) = S1 \<and> redoStack st3 = [S2] \<and>
             history st3 = butlast (history st2) \<and>
             r = Some S2 \<and> history st4 = history st2 \<and> redoStack st4 = [])"
proof -
  let ?st1 = "saveHistory S1 st"
  let ?st2 = "saveHistory S2 ?st1"
  have m1: "maxHistory ?st1 = 50"
    using assms by (simp add: saveHistory_maxHistory)
  have l1: "last (history ?st1) = S1"
    using assms by (simp add: saveHistory_last)
  have ne1: "history ?st1 \<noteq> []"
    using assms by (cases "history st") (simp_all add: saveHistory_history)
  obtain h where h1: "history ?st1 = h @ [S1]"
    using ne1 l1 by (metis append_butlast_last_id)
  have "\<exists>k. history ?st2 = k @ [S1, S2]"
  proof (cases "length (history ?st1) < 50")
    case True
    then show ?thesis using m1 h1 by (simp add: saveHistory_history [of S2])
  next
    case False
    then have "h \<noteq> []" using h1 by auto
    then obtain a k where "h = a # k" by (cases h) auto
    then show ?thesis using False m1 h1 by (simp add: saveHistory_history [of S2])
  qed
  then obtain k where h2: "history ?st2 = k @ [S1, S2]" ..
  have r2: "redoStack ?st2 = []" by (rule saveHistory_redoStack)
  have b2: "butlast (history ?st2) = k @ [S1]"
    using h2 by (simp add: butlast_append)
  show ?thesis
    using h2 r2 b2 by (simp add: performUndo_def performRedo_def Let_def)
qed

theorem undo_redo_after_two_saves_witness:
  "maxHistory (State_new :: nat State) = 50 \<and>
   (let st2 = saveHistory 2 (saveHistory 1 (State_new :: nat State));
        (u, st3) = performUndo st2;
        (r, st4) = performRedo st3
    in u = Some 1 \<and> last (history st3) = 1 \<and> redoStack st3 = [2] \<and>
       history st3 = butlast (history st2) \<and>
       r = Some 2 \<and> history st4 = history st2 \<and> redoStack st4 = [])"
proof -
  have h: "maxHistory (State_new :: nat State) = 50" by (simp add: State_new_def)
  show ?thesis using h undo_redo_after_two_saves [OF h, of 2 1] by simp
qed

text \<open>
  C6.  Sixty calls of \<open>saveHistory\<close> on an empty history leave the last fifty snapshots,
  oldest first.  In general a call on a history of at most fifty entries leaves at most
  fifty: the new snapshot is appended and, when there were already fifty, the oldest
  entry is dropped; the redo stack is empty afterwards in every case.
\<close>

theorem saveHistory_eviction:
  assumes "maxHistory st = 50"
  shows "(history st = [] \<and> length ss = 60 \<longrightarrow>
            history (foldl (\<lambda>st s. saveHistory s st) st ss) = drop 10 ss) \<and>
         (length (history st) \<le> 50 \<longrightarrow>
            length (history (saveHistory s st)) \<le> 50 \<and>
            history (saveHistory s st) =
              (if length (history st) < 50 then history st @ [s]
               else tl (history st) @ [s])) \<and>
         redoStack (saveHistory s st) = []"
proof (intro conjI impI)
  assume a: "history st = [] \<and> length ss = 60"
  have "history (foldl (\<lambda>st s. saveHistory s st) st ss) =
          drop (length (history st @ ss) - maxHistory st) (history st @ ss)"
    by (rule foldl_saveHistory_drop) (simp_all add: a assms)
  then show "history (foldl (\<lambda>st s. saveHistory s st) st ss) = drop 10 ss"
    using a assms by simp
next
  assume "length (history st) \<le> 50"
  then show "length (history (saveHistory s st)) \<le> 50"
    using assms saveHistory_length [of st s] by simp
next
  assume "length (history st) \<le> 50"
  then show "history (saveHistory s st) =
      (if length (history st) < 50 then history st @ [s] else tl (history st) @ [s])"
    using assms by (cases "history st") (auto simp: saveHistory_history)
next
  show "redoStack (saveHistory s st) = []" by (rule saveHistory_redoStack)
qed

theorem saveHistory_eviction_witness:
  "maxHistory (State_new :: nat State) = 50 \<and>
   history (State_new :: nat State) = [] \<and> length [0..<60] = 60 \<and>
   length (history (State_new :: nat State)) \<le> 50 \<and>
   history (foldl (\<lambda>st s. saveHistory s st) (State_new :: nat State) [0..<60]) =
     drop 10 [0..<60] \<and>
   length (history (saveHistory 7 (State_new :: nat State))) \<le> 50 \<and>
   history (saveHistory 7 (State_new :: nat State)) = [7] \<and>
   redoStack (saveHistory 7 (State_new :: nat State)) = []"
proof -
  have h: "maxHistory (State_new :: nat State) = 50" by (simp add: State_new_def)
  have e: "history (State_new :: nat State) = []" by (simp add: State_new_def)
  show ?thesis
    using h e saveHistory_eviction [OF h, of "[0..<60]" 7] by simp
qed

text \<open>
  C10.  With at least two entries in \<open>history\<close>, \<open>performUndo\<close> followed at once by
  \<open>performRedo\<close> gives back both stacks as they were, and the snapshot that
  \<open>performRedo\<close> returns is the one \<open>performUndo\<close> had put on \<open>redoStack\<close>.
\<close>

theorem undo_then_redo_restores:
  assumes "2 \<le> length (history st)"
  shows "(let (u, st1) = performUndo st;
              (r, st2) = performRedo st1
          in history st2 = history st \<and> redoStack st2 = redoStack st \<and>
             redoStack st1 = redoStack st @ [last (history st)] \<and>
             r = Some (last (redoStack st1)) \<and> r = Some (last (history st)))"
proof -
  have ne: "history st \<noteq> []" using assms by auto
  show ?thesis
    using assms ne by (simp add: performUndo_def performRedo_def Let_def)
qed

theorem undo_then_redo_restores_witness:
  "2 \<le> length (history (State_new\<lparr> history := [1, 2, 3::nat], redoStack := [9] \<rparr>)) \<and>
   (let (u, st1) = performUndo (State_new\<lparr> history := [1, 2, 3::nat], redoStack := [9] \<rparr>);
        (r, st2) = performRedo st1
    in history st2 = [1, 2, 3] \<and> redoStack st2 = [9] \<and>
       redoStack st1 = [9, 3] \<and> r = Some 3)"
proof -
  have h: "2 \<le> length (history (State_new\<lparr> history := [1, 2, 3::nat], redoStack := [9] \<rparr>))"
    by simp
  show ?thesis
    using h undo_then_redo_restores [OF h] by (simp add: Let_def split: prod.splits)
qed

section \<open>Line rasterisation\<close>

text \<open>
  With \<open>a\<close> and \<open>b\<close> the numbers of steps still to go along each axis, the error
  accumulator of the loop is always \<open>dx - dy + a * dy - b * dx\<close>.  An exhausted axis is
  never stepped again, and some axis is stepped in every round, so \<open>a + b\<close> decreases.
\<close>

lemma chain8_Cons: "ps \<noteq> [] \<Longrightarrow> near p (hd ps) \<Longrightarrow> chain8 ps \<Longrightarrow> chain8 (p # ps)"
  by (cases ps) auto

lemma drawLine_loop_path:
  assumes "0 \<le> a" "a \<le> dx" "0 \<le> b" "b \<le> dy"
    and "sx = 1 \<or> sx = - 1" "sy = 1 \<or> sy = - 1"
    and "x1 - x0 = sx * a" "y1 - y0 = sy * b"
    and "err = dx - dy + a * dy - b * dx"
  shows "\<exists>cs. cs \<noteq> [] \<and> hd cs = (x0, y0) \<and> last cs = (x1, y1) \<and> chain8 cs \<and>
           (\<forall>(stamp :: int \<Rightarrow> int \<Rightarrow> 'c \<Rightarrow> 'c) c. drawLine_loop stamp dx dy sx sy x1 y1 err x0 y0 c =
              Some (foldl (\<lambda>c p. stamp (fst p) (snd p) c) c cs))"
  using assms
proof (induction "nat (a + b)" arbitrary: a b err x0 y0 rule: less_induct)
  case less
  show ?case
  proof (cases "x0 = x1 \<and> y0 = y1")
    case True
    have "\<forall>(stamp :: int \<Rightarrow> int \<Rightarrow> 'c \<Rightarrow> 'c) c. drawLine_loop stamp dx dy sx sy x1 y1 err x0 y0 c =
              Some (foldl (\<lambda>c p. stamp (fst p) (snd p) c) c [(x0, y0)])"
      using True by (subst drawLine_loop.simps) simp
    then show ?thesis using True by (intro exI [of _ "[(x0, y0)]"]) simp
  next
    case False
    then have ab: "a \<noteq> 0 \<or> b \<noteq> 0" using less.prems by auto
    define X where "X \<longleftrightarrow> 2 * err > - dy"
    define Y where "Y \<longleftrightarrow> 2 * err < dx"
    define a' where "a' = (if X then a - 1 else a)"
    define b' where "b' = (if Y then b - 1 else b)"
    define err' where "err' = (if Y then (if X then err - dy else err) + dx else (if X then err - dy else err))"
    define x0' where "x0' = (if X then x0 + sx else x0)"
    define y0' where "y0' = (if Y then y0 + sy else y0)"
    have P0: "a = 0 \<Longrightarrow> a * dy = 0" and Q0: "b = 0 \<Longrightarrow> b * dx = 0" by simp_all
    have P1: "1 \<le> a \<Longrightarrow> dy \<le> a * dy"
      using less.prems(3,4) by (metis mult_right_mono mult_1 order_trans)
    have Q1: "1 \<le> b \<Longrightarrow> dx \<le> b * dx"
      using less.prems(1,2) by (metis mult_right_mono mult_1 order_trans)
    have Xa: "X \<Longrightarrow> 1 \<le> a"
    proof (rule ccontr)
      assume X and "\<not> 1 \<le> a"
      then have a0: "a = 0" using less.prems(1) by simp
      then have "1 \<le> b" using ab less.prems(3) by simp
      then show False using \<open>X\<close> a0 Q1 less.prems unfolding X_def by simp
    qed
    have Yb: "Y \<Longrightarrow> 1 \<le> b"
    proof (rule ccontr)
      assume Y and "\<not> 1 \<le> b"
      then have b0: "b = 0" using less.prems(3) by simp
      then have "1 \<le> a" using ab less.prems(1) by simp
      then show False using \<open>Y\<close> b0 P1 less.prems unfolding Y_def by simp
    qed
    have XY: "X \<or> Y"
    proof (rule ccontr)
      assume "\<not> (X \<or> Y)"
      then have "dx + dy \<le> 0" unfolding X_def Y_def by simp
      then show False using ab less.prems(1-4) by simp
    qed
    have m: "nat (a' + b') < nat (a + b)"
      using XY Xa Yb less.prems(1,3) unfolding a'_def b'_def by auto
    have e: "err' = dx - dy + a' * dy - b' * dx"
      unfolding err'_def a'_def b'_def using less.prems(9) by (simp add: algebra_simps)
    have xs: "x1 - x0' = sx * a'" "y1 - y0' = sy * b'"
      unfolding x0'_def y0'_def a'_def b'_def using less.prems(7,8) by (simp_all add: algebra_simps)
    have bounds: "0 \<le> a'" "a' \<le> dx" "0 \<le> b'" "b' \<le> dy"
      unfolding a'_def b'_def using Xa Yb less.prems(1-4) by auto
    have step: "drawLine_loop stamp dx dy sx sy x1 y1 err x0 y0 c =
                drawLine_loop stamp dx dy sx sy x1 y1 err' x0' y0' (stamp x0 y0 c)" for stamp :: "int \<Rightarrow> int \<Rightarrow> 'c \<Rightarrow> 'c" and c
      using False
      by (subst drawLine_loop.simps)
         (simp only: Let_def X_def Y_def err'_def x0'_def y0'_def if_False)
    from less.hyps [OF m bounds less.prems(5,6) xs e]
    obtain cs where all: "cs \<noteq> [] \<and> hd cs = (x0', y0') \<and> last cs = (x1, y1) \<and> chain8 cs \<and>
      (\<forall>(stamp :: int \<Rightarrow> int \<Rightarrow> 'c \<Rightarrow> 'c) c. drawLine_loop stamp dx dy sx sy x1 y1 err' x0' y0' c =
              Some (foldl (\<lambda>c p. stamp (fst p) (snd p) c) c cs))" ..
    then have cs: "cs \<noteq> []" "hd cs = (x0', y0')" "last cs = (x1, y1)" "chain8 cs"
      and run: "\<forall>(stamp :: int \<Rightarrow> int \<Rightarrow> 'c \<Rightarrow> 'c) c. drawLine_loop stamp dx dy sx sy x1 y1 err' x0' y0' c =
              Some (foldl (\<lambda>c p. stamp (fst p) (snd p) c) c cs)"
      by simp_all
    have nr: "near (x0, y0) (hd cs)"
    proof -
      have "\<bar>x0' - x0\<bar> \<le> 1" unfolding x0'_def using less.prems(5) by auto
      moreover have "\<bar>y0' - y0\<bar> \<le> 1" unfolding y0'_def using less.prems(6) by auto
      ultimately show ?thesis by (simp add: cs(2))
    qed
    have "\<forall>(stamp :: int \<Rightarrow> int \<Rightarrow> 'c \<Rightarrow> 'c) c. drawLine_loop stamp dx dy sx sy x1 y1 err x0 y0 c =
              Some (foldl (\<lambda>c p. stamp (fst p) (snd p) c) c ((x0, y0) # cs))"
      by (simp add: step run)
    then show ?thesis
      using cs nr by (intro exI [of _ "(x0, y0) # cs"]) (simp add: chain8_Cons)
  qed
qed

text \<open>
  C3.  For all integer endpoints \<open>drawLine\<close> returns, and the cells it stamps, in order,
  form a non-empty sequence that starts at \<open>(x0, y0)\<close>, ends at \<open>(x1, y1)\<close> and in which
  consecutive cells differ by at most one in each coordinate: whatever \<open>stamp\<close> does, the
  result is \<open>stamp\<close> applied along that sequence.
\<close>

theorem drawLine_connected:
  "\<exists>cs. cs \<noteq> [] \<and> hd cs = (x0, y0) \<and> last cs = (x1, y1) \<and> chain8 cs \<and>
     (\<forall>(stamp :: int \<Rightarrow> int \<Rightarrow> 'c \<Rightarrow> 'c) c. drawLine stamp x0 y0 x1 y1 c =
        Some (foldl (\<lambda>c p. stamp (fst p) (snd p) c) c cs))"
  unfolding drawLine_def Let_def
  by (rule drawLine_loop_path [of "\<bar>x1 - x0\<bar>" _ "\<bar>y1 - y0\<bar>"]) (auto simp: algebra_simps)

theorem drawLine_connected_witness:
  "\<exists>cs. cs \<noteq> [] \<and> hd cs = (0, 0) \<and> last cs = (3, 1) \<and> chain8 cs \<and>
     (\<forall>(stamp :: int \<Rightarrow> int \<Rightarrow> (int \<times> int) list \<Rightarrow> (int \<times> int) list) c.
        drawLine stamp 0 0 3 1 c = Some (foldl (\<lambda>c p. stamp (fst p) (snd p) c) c cs))"
  using drawLine_connected [of 0 0 3 1] .

section \<open>The interaction state machine\<close>

text \<open>
  C8.  When \<open>x < 0\<close>, \<open>x \<ge> width\<close>, \<open>y < 0\<close> or \<open>y \<ge> height\<close>, \<open>execute\<close> returns no
  signal and the tool manager it returns is the one it was given: state fields, canvas
  bytes, last stroke point, \<open>history\<close> and \<open>redoStack\<close> are unchanged.  This holds for
  \<open>start\<close> and \<open>move\<close> (and for \<open>end\<close> called with such coordinates).
\<close>

theorem execute_out_of_bounds:
  assumes "x < 0 \<or> x \<ge> width (state tm) \<or> y < 0 \<or> y \<ge> height (state tm)"
  shows "execute blend act x y tm = Some (None, tm)"
  using assms by (simp add: execute_def)

theorem execute_out_of_bounds_witness:
  "((2::int) < 0 \<or> 2 \<ge> width (state pencil_tm) \<or> (0::int) < 0 \<or> 0 \<ge> height (state pencil_tm)) \<and>
   execute opaque_paint Move 2 0 pencil_tm = Some (None, pencil_tm) \<and>
   execute opaque_paint Start 2 0 pencil_tm = Some (None, pencil_tm)"
proof -
  have h: "(2::int) < 0 \<or> 2 \<ge> width (state pencil_tm) \<or> (0::int) < 0 \<or> 0 \<ge> height (state pencil_tm)"
    by (simp add: pencil_tm_def ToolManager_new_def State_new_def)
  show ?thesis
    using h execute_out_of_bounds [OF h, of opaque_paint Move]
      execute_out_of_bounds [OF h, of opaque_paint Start] by simp
qed

lemma pickColor_frame:
  "history (state (pickColor x y tm)) = history (state tm) \<and>
   redoStack (state (pickColor x y tm)) = redoStack (state tm) \<and>
   maxHistory (state (pickColor x y tm)) = maxHistory (state tm) \<and>
   width (state (pickColor x y tm)) = width (state tm) \<and>
   height (state (pickColor x y tm)) = height (state tm) \<and>
   isDrawing (state (pickColor x y tm)) = isDrawing (state tm) \<and>
   workCtx (pickColor x y tm) = workCtx tm"
  by (simp add: pickColor_def split: prod.splits)

text \<open>
  C1, as the code has it.  A click with the eyedropper on a cell of the grid: the
  pointer-down handler runs \<open>execute('start', x, y)\<close>, which sets \<open>isDrawing\<close> and samples
  the colour; \<open>history\<close>, \<open>redoStack\<close> and the canvas are as before.  \<open>execute('end')\<close>
  then finds \<open>isDrawing\<close> set and returns the commit signal without touching the two
  stacks itself; the pointer-up handler answers the signal with \<open>saveHistory\<close>, so
  after the click \<open>history\<close> has the snapshot of the canvas appended (the oldest entry
  evicted beyond fifty) and \<open>redoStack\<close> is empty.
\<close>

theorem eyedropper_click_commits:
  assumes "currentTool (state tm) = Eyedropper"
    and "0 \<le> x" "x < width (state tm)" "0 \<le> y" "y < height (state tm)"
    and "button e = 0" "\<not> altKey e" "\<not> isPanning (state tm)"
  shows "\<exists>tm1. execute blend Start x y tm = Some (None, tm1) \<and>
           onmousedown blend toDataURL e x y tm = Some tm1 \<and>
           history (state tm1) = history (state tm) \<and>
           redoStack (state tm1) = redoStack (state tm) \<and>
           workCtx tm1 = workCtx tm \<and>
           fst (execute_end tm1) = Some SHOULD_SAVE_HISTORY \<and>
           history (state (snd (execute_end tm1))) = history (state tm) \<and>
           redoStack (state (snd (execute_end tm1))) = redoStack (state tm) \<and>
           history (state (onmouseup toDataURL tm1)) =
             history (saveHistory
               (toDataURL (width (state tm), height (state tm), workCtx tm)) (state tm)) \<and>
           redoStack (state (onmouseup toDataURL tm1)) = []"
proof -
  define tm1 where "tm1 = pickColor x y (tm\<lparr> state := (state tm)\<lparr> isDrawing := True \<rparr> \<rparr>)"
  have ex: "execute blend Start x y tm = Some (None, tm1)"
    using assms by (simp add: execute_def tm1_def)
  have md: "onmousedown blend toDataURL e x y tm = Some tm1"
    using assms ex by (simp add: onmousedown_def commit_def)
  have fr: "history (state tm1) = history (state tm)" "redoStack (state tm1) = redoStack (state tm)"
    "maxHistory (state tm1) = maxHistory (state tm)" "width (state tm1) = width (state tm)"
    "height (state tm1) = height (state tm)" "isDrawing (state tm1)" "workCtx tm1 = workCtx tm"
    unfolding tm1_def using pickColor_frame [of x y "tm\<lparr> state := (state tm)\<lparr> isDrawing := True \<rparr> \<rparr>"]
    by simp_all
  have en: "execute_end tm1 = (Some SHOULD_SAVE_HISTORY, tm1\<lparr> state := (state tm1)\<lparr> isDrawing := False \<rparr> \<rparr>)"
    using fr(6) by (simp add: execute_end_def end_case_def)
  have up: "history (state (onmouseup toDataURL tm1)) =
             history (saveHistory
               (toDataURL (width (state tm), height (state tm), workCtx tm)) (state tm))"
    "redoStack (state (onmouseup toDataURL tm1)) = []"
    by (simp_all add: onmouseup_def en commit_def fr saveHistory_def Let_def)
  show ?thesis
    using ex md fr en up by (intro exI [of _ tm1]) simp
qed

theorem eyedropper_click_commits_witness:
  "currentTool (state dropper_tm) = Eyedropper \<and>
   (0::int) \<le> 0 \<and> 0 < width (state dropper_tm) \<and> 0 < height (state dropper_tm) \<and>
   button left_click = 0 \<and> \<not> altKey left_click \<and> \<not> isPanning (state dropper_tm) \<and>
   (\<exists>tm1. execute opaque_paint Start 0 0 dropper_tm = Some (None, tm1) \<and>
           onmousedown opaque_paint bytes_of left_click 0 0 dropper_tm = Some tm1 \<and>
           history (state tm1) = history (state dropper_tm) \<and>
           redoStack (state tm1) = redoStack (state dropper_tm) \<and>
           workCtx tm1 = workCtx dropper_tm \<and>
           fst (execute_end tm1) = Some SHOULD_SAVE_HISTORY \<and>
           history (state (onmouseup bytes_of tm1)) = [[1], grid2] \<and>
           redoStack (state (onmouseup bytes_of tm1)) = [])"
proof -
  have h: "currentTool (state dropper_tm) = Eyedropper" "(0::int) \<le> 0"
    "0 < width (state dropper_tm)" "0 < height (state dropper_tm)"
    "button left_click = 0" "\<not> altKey left_click" "\<not> isPanning (state dropper_tm)"
    by (simp_all add: dropper_tm_def ToolManager_new_def State_new_def left_click_def)
  have s: "history (saveHistory (bytes_of (width (state dropper_tm), height (state dropper_tm),
              workCtx dropper_tm)) (state dropper_tm)) = [[1], grid2]"
    by (simp add: dropper_tm_def ToolManager_new_def State_new_def saveHistory_def bytes_of_def)
  from eyedropper_click_commits [OF h(1) h(2) h(3) h(2) h(4) h(5) h(6) h(7), of opaque_paint bytes_of]
  obtain tm1 where
    "execute opaque_paint Start 0 0 dropper_tm = Some (None, tm1) \<and>
     onmousedown opaque_paint bytes_of left_click 0 0 dropper_tm = Some tm1 \<and>
     history (state tm1) = history (state dropper_tm) \<and>
     redoStack (state tm1) = redoStack (state dropper_tm) \<and>
     workCtx tm1 = workCtx dropper_tm \<and>
     fst (execute_end tm1) = Some SHOULD_SAVE_HISTORY \<and>
     history (state (snd (execute_end tm1))) = history (state dropper_tm) \<and>
     redoStack (state (snd (execute_end tm1))) = redoStack (state dropper_tm) \<and>
     history (state (onmouseup bytes_of tm1)) =
       history (saveHistory (bytes_of (width (state dropper_tm), height (state dropper_tm),
              workCtx dropper_tm)) (state dropper_tm)) \<and>
     redoStack (state (onmouseup bytes_of tm1)) = []" ..
  then have "execute opaque_paint Start 0 0 dropper_tm = Some (None, tm1) \<and>
           onmousedown opaque_paint bytes_of left_click 0 0 dropper_tm = Some tm1 \<and>
           history (state tm1) = history (state dropper_tm) \<and>
           redoStack (state tm1) = redoStack (state dropper_tm) \<and>
           workCtx tm1 = workCtx dropper_tm \<and>
           fst (execute_end tm1) = Some SHOULD_SAVE_HISTORY \<and>
           history (state (onmouseup bytes_of tm1)) = [[1], grid2] \<and>
           redoStack (state (onmouseup bytes_of tm1)) = []"
    using s by simp
  then show ?thesis using h by blast
qed

lemma toString16_sample: "toString16 33488906 = ''1ff000a''"
  by (simp add: toString16.simps hex_char_def)

text \<open>
  C1, as stated, fails.  On the two by two grid with \<open>history = [[1]]\<close> and
  \<open>redoStack = [[2]]\<close>, pointer-down on cell \<open>(0, 0)\<close> followed by pointer-up leaves
  \<open>history = [[1], grid2]\<close> and an empty \<open>redoStack\<close>: a history slot is consumed and the
  redo stack is lost.
\<close>

theorem eyedropper_click_counterexample:
  "onmousedown opaque_paint bytes_of left_click 0 0 dropper_tm = Some dropper_tm_down \<and>
   history (state dropper_tm) = [[1]] \<and>
   redoStack (state dropper_tm) = [[2]] \<and>
   history (state (onmouseup bytes_of dropper_tm_down)) = [[1], grid2] \<and>
   redoStack (state (onmouseup bytes_of dropper_tm_down)) = [] \<and>
   history (state (onmouseup bytes_of dropper_tm_down)) \<noteq> history (state dropper_tm) \<and>
   redoStack (state (onmouseup bytes_of dropper_tm_down)) \<noteq> redoStack (state dropper_tm)"
proof -
  have d: "onmousedown opaque_paint bytes_of left_click 0 0 dropper_tm = Some dropper_tm_down"
    by (simp add: onmousedown_def left_click_def dropper_tm_def dropper_tm_down_def
        ToolManager_new_def State_new_def execute_def pickColor_def getImageData1_def
        getPixelColor_def data_get_def grid2_def commit_def toString16_sample Let_def)
  have b: "history (state dropper_tm) = [[1]]" "redoStack (state dropper_tm) = [[2]]"
    by (simp_all add: dropper_tm_def ToolManager_new_def State_new_def)
  have u: "history (state (onmouseup bytes_of dropper_tm_down)) = [[1], grid2]"
    "redoStack (state (onmouseup bytes_of dropper_tm_down)) = []"
    by (simp_all add: onmouseup_def execute_end_def end_case_def commit_def dropper_tm_down_def
        ToolManager_new_def State_new_def saveHistory_def bytes_of_def Let_def)
  show ?thesis using d b u by simp
qed

section \<open>Brush stamp\<close>

text \<open>
  When the square's origin is not negative, the cells painted are the square of the
  brush cut to the grid: the trailing edge is clipped as it should be.
\<close>

lemma set_rect_cells:
  "set (rect_cells st (x, y, w, h)) =
     {(i, j). max 0 (min x (x + w)) \<le> i \<and> i < min (width st) (max x (x + w)) \<and>
              max 0 (min y (y + h)) \<le> j \<and> j < min (height st) (max y (y + h))}"
  by (auto simp: rect_cells_def)

lemma clipped_range:
  fixes b p w i :: int
  assumes "0 < b" "0 \<le> p"
  shows "(max 0 (min p (p + min b (w - p))) \<le> i \<and> i < min w (max p (p + min b (w - p)))) \<longleftrightarrow>
         (p \<le> i \<and> i < p + b \<and> 0 \<le> i \<and> i < w)"
  using assms unfolding min_def max_def by (simp split: if_splits) linarith?

lemma drawPixel_interior:
  assumes "0 < brushSize st" "brushSize st div 2 \<le> x" "brushSize st div 2 \<le> y"
  shows "set (rect_cells st (drawPixel_rect st x y)) = brush_square st x y"
proof -
  let ?b = "brushSize st"
  have x: "0 \<le> x - ?b div 2" and y: "0 \<le> y - ?b div 2" using assms by simp_all
  have r: "drawPixel_rect st x y =
      (x - ?b div 2, y - ?b div 2, min ?b (width st - (x - ?b div 2)),
       min ?b (height st - (y - ?b div 2)))"
    using assms x y by (simp add: drawPixel_rect_def Let_def max_def)
  show ?thesis
    unfolding r set_rect_cells brush_square_def Let_def
    using clipped_range [OF assms(1) x] clipped_range [OF assms(1) y] by auto
qed

lemma brush2_rect_cells:
  "rect_cells (state brush2_tm) (drawPixel_rect (state brush2_tm) 0 0) =
     [(0, 0), (1, 0), (0, 1), (1, 1)]"
  by (simp add: brush2_tm_def ToolManager_new_def State_new_def drawPixel_rect_def
      rect_cells_def Let_def upto.simps)

text \<open>
  C2 at the corner.  With a brush of size two and the centre \<open>(0, 0)\<close> the square of the
  claim is \<open>[-1, 1) \<times> [-1, 1)\<close> and meets the grid in the single cell \<open>(0, 0)\<close>.  The
  rectangle \<open>drawPixel\<close> computes has its origin clamped to 0 and its extent still 2, so
  the four cells \<open>(0, 0)\<close>, \<open>(1, 0)\<close>, \<open>(0, 1)\<close>, \<open>(1, 1)\<close> are painted, on the default
  sixteen by sixteen grid as on the two by two grid, where every byte changes.
\<close>

theorem drawPixel_corner_overpaint:
  "rect_cells brush2_st (drawPixel_rect brush2_st 0 0) = [(0, 0), (1, 0), (0, 1), (1, 1)] \<and>
   brush_square brush2_st 0 0 = {(0, 0)} \<and>
   rect_cells (state brush2_tm) (drawPixel_rect (state brush2_tm) 0 0) =
     [(0, 0), (1, 0), (0, 1), (1, 1)] \<and>
   brush_square (state brush2_tm) 0 0 = {(0, 0)} \<and>
   workCtx (drawPixel opaque_paint 0 0 ''#010203'' brush2_tm) =
     [1, 2, 3, 255,  1, 2, 3, 255,  1, 2, 3, 255,  1, 2, 3, 255]"
proof -
  have r16: "rect_cells brush2_st (drawPixel_rect brush2_st 0 0) = [(0, 0), (1, 0), (0, 1), (1, 1)]"
    by (simp add: brush2_st_def State_new_def drawPixel_rect_def rect_cells_def Let_def upto.simps)
  have s16: "brush_square brush2_st 0 0 = {(0, 0)}"
    by (auto simp: brush2_st_def State_new_def brush_square_def Let_def)
  have s2: "brush_square (state brush2_tm) 0 0 = {(0, 0)}"
    by (auto simp: brush2_tm_def ToolManager_new_def State_new_def brush_square_def Let_def)
  have c: "hexToRgb ''#010203'' = (Some 1, Some 2, Some 3, Some 255)"
    by (simp add: hexToRgb_def regex_exec_def is_hex_digit_def parseInt16_def hex_val_def)
  have t: "currentTool (state brush2_tm) = Pencil" "width (state brush2_tm) = 2"
    "workCtx brush2_tm = grid2"
    by (simp_all add: brush2_tm_def ToolManager_new_def State_new_def)
  have w: "workCtx (drawPixel opaque_paint 0 0 ''#010203'' brush2_tm) =
     [1, 2, 3, 255,  1, 2, 3, 255,  1, 2, 3, 255,  1, 2, 3, 255]"
    by (simp add: drawPixel_def fillRect_def brush2_rect_cells t opaque_paint_def c
        getPixelColor_def data_set_def grid2_def)
  show ?thesis using r16 s16 brush2_rect_cells s2 w by simp
qed

section \<open>Reading and writing cells\<close>

text \<open>
  Inside the grid the byte index of a cell determines the cell, and the four bytes of
  a cell lie inside an array of \<open>4 * width * height\<close> bytes.  Hence writing a cell and
  reading it back gives the colour written, and every other cell reads as before.
\<close>

lemma colorsMatch_eq: "colorsMatch c1 c2 \<longleftrightarrow> c1 = c2"
  by (cases c1; cases c2) auto

lemma cell_index_inj:
  fixes w :: int
  assumes "0 \<le> x" "x < w" "0 \<le> x'" "x' < w" "y * w + x = y' * w + x'"
  shows "x = x' \<and> y = y'"
proof -
  have "(y * w + x) div w = y"
    using assms(1,2) by simp
  moreover have "(y' * w + x') div w = y'"
    using assms(3,4) by simp
  ultimately have "y = y'" using assms(5) by simp
  then show ?thesis using assms(5) by simp
qed

lemma cell_index_bounds:
  assumes "inb st c"
  shows "0 \<le> snd c * width st + fst c" "snd c * width st + fst c < width st * height st"
proof -
  have w: "0 < width st" and y: "0 \<le> snd c" "snd c \<le> height st - 1"
    and x: "0 \<le> fst c" "fst c < width st"
    using assms by (auto simp: inb_def)
  have "0 \<le> snd c * width st" using w y by simp
  then show "0 \<le> snd c * width st + fst c" using x by simp
  have "snd c * width st \<le> (height st - 1) * width st"
    using y w by (intro mult_right_mono) simp_all
  then show "snd c * width st + fst c < width st * height st"
    using x by (simp add: algebra_simps)
qed

lemma length_data_set [simp]: "length (data_set d i v) = length d"
  by (simp add: data_set_def)

lemma data_get_set:
  "data_get (data_set d i v) j =
     (if j = i \<and> 0 \<le> i \<and> i < int (length d)
      then Some (case v of None \<Rightarrow> 0 | Some n \<Rightarrow> min n 255) else data_get d j)"
  by (auto simp: data_get_def data_set_def nat_eq_iff)

lemma length_setPixelData [simp]: "length (setPixelData st x y d f) = length d"
  by (cases f) (simp add: Let_def)

lemma px_set_same:
  assumes "int (length d) = 4 * width st * height st" "inb st c" "valid_rgba f"
  shows "px st (setPixelData st (fst c) (snd c) d f) c = f"
proof -
  obtain r g b a where f: "f = (Some r, Some g, Some b, Some a)"
    and v: "r \<le> 255" "g \<le> 255" "b \<le> 255" "a \<le> 255"
  proof -
    obtain r' g' b' a' where f': "f = (r', g', b', a')" by (cases f) auto
    then have "byte_val r'" "byte_val g'" "byte_val b'" "byte_val a'"
      using assms(3) by simp_all
    then show ?thesis using f' that
      by (cases r'; cases g'; cases b'; cases a') auto
  qed
  define k where "k = snd c * width st + fst c"
  have k: "0 \<le> k" "k < width st * height st"
    using cell_index_bounds [OF assms(2)] by (simp_all add: k_def)
  have len: "4 * k + 3 < int (length d)" using k assms(1) by simp
  show ?thesis
    using k(1) len v
    by (simp add: px_def getPixelColor_def f Let_def data_get_set k_def [symmetric] min_def)
qed

lemma px_set_other:
  assumes "inb st c" "inb st c'" "c \<noteq> c'"
  shows "px st (setPixelData st (fst c) (snd c) d f) c' = px st d c'"
proof -
  obtain r g b a where f: "f = (r, g, b, a)" by (cases f) auto
  define k where "k = snd c * width st + fst c"
  define k' where "k' = snd c' * width st + fst c'"
  have "k \<noteq> k'"
  proof
    assume "k = k'"
    then have "fst c = fst c' \<and> snd c = snd c'"
      using assms(1,2) unfolding k_def k'_def inb_def by (intro cell_index_inj) auto
    then show False using assms(3) by (simp add: prod_eq_iff)
  qed
  then show ?thesis
    by (simp add: px_def getPixelColor_def f Let_def data_get_set k_def [symmetric] k'_def [symmetric])
qed

lemma region_inb_px:
  assumes "inb st s" "c \<in> region st d s"
  shows "inb st c \<and> px st d c = px st d s"
  using assms(2,1) by (induction rule: region.induct) auto

lemma finite_inb: "finite {c. inb st c}"
proof -
  have "{c. inb st c} \<subseteq> {0..<width st} \<times> {0..<height st}"
    by (auto simp: inb_def)
  then show ?thesis by (rule finite_subset) simp
qed

lemma set_pushed:
  assumes "inb st (x, y)"
  shows "set (pushed st x y rest) = set rest \<union> {n. adj4 (x, y) n \<and> inb st n}"
  using assms by (auto simp: pushed_def Let_def adj4_def inb_def)

lemma length_pushed: "length (pushed st x y rest) \<le> length rest + 4"
  by (simp add: pushed_def Let_def)

lemma floodFill_loop_Nil: "floodFill_loop st t f [] d = Some d"
  by (subst floodFill_loop.simps) simp

lemma floodFill_loop_Cons:
  "floodFill_loop st t f ((x, y) # rest) d =
     (if px st d (x, y) = t
      then floodFill_loop st t f (pushed st x y rest) (setPixelData st x y d f)
      else floodFill_loop st t f rest d)"
  by (subst floodFill_loop.simps) (simp add: Let_def colorsMatch_eq pushed_def px_def)

section \<open>Flood fill\<close>

text \<open>
  The loop keeps \<open>fill_inv\<close>.  Each round either recolours a cell that had the seed's
  colour, so there is one such cell less while the queue grows by at most three, or
  only shortens the queue: four times the number of cells of the seed's colour plus the
  queue length decreases, and the loop returns.  With an empty queue the invariant
  says that the region, and nothing else, has been recoloured.
\<close>

lemma fill_invD:
  assumes "fill_inv st d0 s f q d"
  shows "length d = length d0"
    and "\<And>c. c \<in> set q \<Longrightarrow> inb st c"
    and "\<And>c. c \<in> set q \<Longrightarrow> px st d0 c = px st d0 s \<Longrightarrow> c \<in> region st d0 s"
    and "\<And>c. inb st c \<Longrightarrow> px st d c = px st d0 c \<or> (c \<in> region st d0 s \<and> px st d c = f)"
    and "\<And>c n. c \<in> region st d0 s \<Longrightarrow> px st d c = f \<Longrightarrow> adj4 c n \<Longrightarrow> inb st n \<Longrightarrow>
           px st d n = px st d0 s \<Longrightarrow> n \<in> set q"
    and "s \<in> set q \<or> px st d s = f"
proof -
  from assms have a: "length d = length d0"
    and b: "\<forall>c \<in> set q. inb st c \<and> (px st d0 c = px st d0 s \<longrightarrow> c \<in> region st d0 s)"
    and c: "\<forall>c. inb st c \<longrightarrow> px st d c = px st d0 c \<or> (c \<in> region st d0 s \<and> px st d c = f)"
    and e: "\<forall>c n. c \<in> region st d0 s \<and> px st d c = f \<and> adj4 c n \<and> inb st n \<and>
             px st d n = px st d0 s \<longrightarrow> n \<in> set q"
    and g: "s \<in> set q \<or> px st d s = f"
    unfolding fill_inv_def by blast+
  show "length d = length d0" by (rule a)
  show "\<And>c. c \<in> set q \<Longrightarrow> inb st c" using b by blast
  show "\<And>c. c \<in> set q \<Longrightarrow> px st d0 c = px st d0 s \<Longrightarrow> c \<in> region st d0 s" using b by blast
  show "\<And>c. inb st c \<Longrightarrow> px st d c = px st d0 c \<or> (c \<in> region st d0 s \<and> px st d c = f)"
    using c by blast
  show "\<And>c n. c \<in> region st d0 s \<Longrightarrow> px st d c = f \<Longrightarrow> adj4 c n \<Longrightarrow> inb st n \<Longrightarrow>
           px st d n = px st d0 s \<Longrightarrow> n \<in> set q" using e by blast
  show "s \<in> set q \<or> px st d s = f" by (rule g)
qed

lemma fill_invI:
  assumes "length d = length d0"
    and "\<And>c. c \<in> set q \<Longrightarrow> inb st c"
    and "\<And>c. c \<in> set q \<Longrightarrow> px st d0 c = px st d0 s \<Longrightarrow> c \<in> region st d0 s"
    and "\<And>c. inb st c \<Longrightarrow> px st d c = px st d0 c \<or> (c \<in> region st d0 s \<and> px st d c = f)"
    and "\<And>c n. c \<in> region st d0 s \<Longrightarrow> px st d c = f \<Longrightarrow> adj4 c n \<Longrightarrow> inb st n \<Longrightarrow>
           px st d n = px st d0 s \<Longrightarrow> n \<in> set q"
    and "s \<in> set q \<or> px st d s = f"
  shows "fill_inv st d0 s f q d"
  unfolding fill_inv_def
proof (intro conjI ballI allI impI)
  show "length d = length d0" by (rule assms(1))
  show "inb st c" if "c \<in> set q" for c using that by (rule assms(2))
  show "c \<in> region st d0 s" if "c \<in> set q" "px st d0 c = px st d0 s" for c
    using that by (rule assms(3))
  show "px st d c = px st d0 c \<or> (c \<in> region st d0 s \<and> px st d c = f)" if "inb st c" for c
    using that by (rule assms(4))
  show "n \<in> set q"
    if "c \<in> region st d0 s \<and> px st d c = f \<and> adj4 c n \<and> inb st n \<and> px st d n = px st d0 s"
    for c n
    using that assms(5) [of c n] by blast
  show "s \<in> set q \<or> px st d s = f" by (rule assms(6))
qed

lemma fill_inv_step_skip:
  assumes inv: "fill_inv st d0 s f (c # rest) d" and m: "px st d c \<noteq> px st d0 s"
    and s: "inb st s"
  shows "fill_inv st d0 s f rest d"
proof (rule fill_invI)
  note D = fill_invD [OF inv]
  show "length d = length d0" by (rule D(1))
  show "inb st c'" if "c' \<in> set rest" for c' using that D(2) [of c'] by simp
  show "c' \<in> region st d0 s" if "c' \<in> set rest" "px st d0 c' = px st d0 s" for c'
    using that D(3) [of c'] by simp
  show "px st d c' = px st d0 c' \<or> (c' \<in> region st d0 s \<and> px st d c' = f)" if "inb st c'" for c'
    using that by (rule D(4))
  show "n \<in> set rest"
    if "c' \<in> region st d0 s" "px st d c' = f" "adj4 c' n" "inb st n" "px st d n = px st d0 s"
    for c' n
  proof -
    have "n \<in> set (c # rest)" using that by (rule D(5))
    moreover have "n \<noteq> c" using that(5) m by auto
    ultimately show ?thesis by simp
  qed
  show "s \<in> set rest \<or> px st d s = f"
  proof (cases "s = c")
    case True
    then have "px st d s \<noteq> px st d0 s" using m by simp
    then show ?thesis using D(4) [OF s] by simp
  next
    case False
    then show ?thesis using D(6) by simp
  qed
qed

lemma fill_inv_step_fill:
  assumes len: "int (length d0) = 4 * width st * height st"
    and s: "inb st s" and f: "valid_rgba f" "f \<noteq> px st d0 s"
    and inv: "fill_inv st d0 s f (c # rest) d"
    and m: "px st d c = px st d0 s"
  shows "fill_inv st d0 s f (pushed st (fst c) (snd c) rest) (setPixelData st (fst c) (snd c) d f)"
proof (rule fill_invI)
  let ?d = "setPixelData st (fst c) (snd c) d f"
  let ?q = "pushed st (fst c) (snd c) rest"
  let ?R = "region st d0 s"
  let ?t = "px st d0 s"
  note D = fill_invD [OF inv]
  have ld: "int (length d) = 4 * width st * height st"
    using D(1) len by simp
  have cin: "inb st c" using D(2) [of c] by simp
  have same: "px st ?d c = f" using ld cin f(1) by (rule px_set_same)
  have other: "px st ?d c' = px st d c'" if "inb st c'" "c' \<noteq> c" for c'
    using cin that by (simp add: px_set_other)
  have c0: "px st d0 c = ?t" using D(4) [OF cin] m f(2) by auto
  have cR: "c \<in> ?R" using D(3) [of c] c0 by simp
  have qs: "set ?q = set rest \<union> {n. adj4 c n \<and> inb st n}"
    using set_pushed [of st "fst c" "snd c" rest] cin by simp
  show "length ?d = length d0" using D(1) by simp
  show "inb st c'" if "c' \<in> set ?q" for c'
    using that qs D(2) [of c'] by auto
  show "c' \<in> ?R" if a: "c' \<in> set ?q" "px st d0 c' = ?t" for c'
  proof -
    have "c' \<in> set rest \<or> (adj4 c c' \<and> inb st c')" using a(1) qs by simp
    then show ?thesis
    proof
      assume "c' \<in> set rest"
      then show ?thesis using D(3) [of c'] a(2) by simp
    next
      assume "adj4 c c' \<and> inb st c'"
      then have "adj4 c c'" "inb st c'" by simp_all
      with cR show ?thesis using a(2) by (rule region.step)
    qed
  qed
  show "px st ?d c' = px st d0 c' \<or> (c' \<in> ?R \<and> px st ?d c' = f)" if "inb st c'" for c'
  proof (cases "c' = c")
    case True
    then show ?thesis using cR same by simp
  next
    case False
    have "px st ?d c' = px st d c'" using other [OF that False] .
    then show ?thesis using D(4) [OF that] by simp
  qed
  show "n \<in> set ?q"
    if a: "c' \<in> ?R" "px st ?d c' = f" "adj4 c' n" "inb st n" "px st ?d n = ?t" for c' n
  proof -
    have nc: "n \<noteq> c" using a(5) same f(2) by auto
    from other [OF a(4) nc] have nd: "px st d n = ?t" using a(5) by simp
    show ?thesis
    proof (cases "c' = c")
      case True
      then show ?thesis using a(3,4) qs by simp
    next
      case False
      have "inb st c'" using region_inb_px [OF s a(1)] by simp
      from other [OF this False] have "px st d c' = f" using a(2) by simp
      with a(1) have "n \<in> set (c # rest)" using a(3,4) nd by (rule D(5))
      then show ?thesis using nc qs by simp
    qed
  qed
  show "s \<in> set ?q \<or> px st ?d s = f"
  proof (cases "s = c")
    case True
    then show ?thesis using same by simp
  next
    case False
    from other [OF s False] have "px st ?d s = px st d s" .
    then show ?thesis using D(6) False qs by auto
  qed
qed

lemma card_target_decreases:
  assumes len: "int (length d) = 4 * width st * height st"
    and cin: "inb st c" and f: "valid_rgba f" "f \<noteq> t" and m: "px st d c = t"
  shows "card {c'. inb st c' \<and> px st (setPixelData st (fst c) (snd c) d f) c' = t}
           < card {c'. inb st c' \<and> px st d c' = t}"
proof -
  let ?d = "setPixelData st (fst c) (snd c) d f"
  have same: "px st ?d c = f" using len cin f(1) by (rule px_set_same)
  have other: "px st ?d c' = px st d c'" if "inb st c'" "c' \<noteq> c" for c'
    using cin that by (simp add: px_set_other)
  have "{c'. inb st c' \<and> px st ?d c' = t} \<subset> {c'. inb st c' \<and> px st d c' = t}"
  proof
    show "{c'. inb st c' \<and> px st ?d c' = t} \<subseteq> {c'. inb st c' \<and> px st d c' = t}"
    proof
      fix c' assume a: "c' \<in> {c'. inb st c' \<and> px st ?d c' = t}"
      then have nc: "c' \<noteq> c" using same f(2) by auto
      have "inb st c'" using a by simp
      from other [OF this nc] show "c' \<in> {c'. inb st c' \<and> px st d c' = t}" using a by simp
    qed
    have "c \<in> {c'. inb st c' \<and> px st d c' = t}" using cin m by simp
    moreover have "c \<notin> {c'. inb st c' \<and> px st ?d c' = t}" using same f(2) by simp
    ultimately show "{c'. inb st c' \<and> px st ?d c' = t} \<noteq> {c'. inb st c' \<and> px st d c' = t}"
      by blast
  qed
  moreover have "finite {c'. inb st c' \<and> px st d c' = t}"
    using finite_inb [of st] by (rule rev_finite_subset) auto
  ultimately show ?thesis by (rule psubset_card_mono [rotated])
qed

lemma floodFill_loop_inv:
  assumes len: "int (length d0) = 4 * width st * height st"
    and s: "inb st s" and f: "valid_rgba f" "f \<noteq> px st d0 s"
    and inv: "fill_inv st d0 s f q d"
  shows "\<exists>d'. floodFill_loop st (px st d0 s) f q d = Some d' \<and> fill_inv st d0 s f [] d'"
  using inv
proof (induction "4 * card {c. inb st c \<and> px st d c = px st d0 s} + length q"
    arbitrary: q d rule: less_induct)
  case less
  show ?case
  proof (cases q)
    case Nil
    then show ?thesis using less.prems by (simp add: floodFill_loop_Nil)
  next
    case (Cons c rest)
    obtain x y where c: "c = (x, y)" by (cases c) auto
    have ld: "int (length d) = 4 * width st * height st"
      using fill_invD(1) [OF less.prems] len by simp
    have cin: "inb st c" using fill_invD(2) [OF less.prems, of c] Cons by simp
    show ?thesis
    proof (cases "px st d c = px st d0 s")
      case True
      let ?d = "setPixelData st (fst c) (snd c) d f"
      let ?q = "pushed st (fst c) (snd c) rest"
      have inv': "fill_inv st d0 s f ?q ?d"
        using len s f less.prems True unfolding Cons by (rule fill_inv_step_fill)
      have "card {c'. inb st c' \<and> px st ?d c' = px st d0 s}
              < card {c'. inb st c' \<and> px st d c' = px st d0 s}"
        using ld cin f True by (rule card_target_decreases)
      moreover have "length ?q \<le> length rest + 4" by (rule length_pushed)
      ultimately have "4 * card {c'. inb st c' \<and> px st ?d c' = px st d0 s} + length ?q
              < 4 * card {c'. inb st c' \<and> px st d c' = px st d0 s} + length q"
        using Cons by simp
      from less.hyps [OF this inv'] show ?thesis
        using True by (simp add: Cons c floodFill_loop_Cons)
    next
      case False
      have inv': "fill_inv st d0 s f rest d"
        using less.prems False s unfolding Cons by (rule fill_inv_step_skip)
      have "4 * card {c'. inb st c' \<and> px st d c' = px st d0 s} + length rest
              < 4 * card {c'. inb st c' \<and> px st d c' = px st d0 s} + length q"
        using Cons by simp
      from less.hyps [OF this inv'] show ?thesis
        using False by (simp add: Cons c floodFill_loop_Cons)
    qed
  qed
qed

lemma fill_inv_init:
  assumes "inb st s" "f \<noteq> px st d0 s"
  shows "fill_inv st d0 s f [s] d0"
proof -
  have "px st d0 c \<noteq> f" if "c \<in> region st d0 s" for c
    using region_inb_px [OF assms(1) that] assms(2) by simp
  then show ?thesis
    using assms(1) by (intro fill_invI) (auto intro: region.seed)
qed

lemma fill_inv_final:
  assumes s: "inb st s" and f: "f \<noteq> px st d0 s" and inv: "fill_inv st d0 s f [] d"
  shows "length d = length d0"
    and "inb st c \<Longrightarrow> px st d c = (if c \<in> region st d0 s then f else px st d0 c)"
proof -
  note D = fill_invD [OF inv]
  show "length d = length d0" by (rule D(1))
  have filled: "px st d c' = f" if "c' \<in> region st d0 s" for c'
    using that
  proof (induction rule: region.induct)
    case seed
    then show ?case using D(6) by simp
  next
    case (step c c')
    have "px st d c' = px st d0 c' \<or> (c' \<in> region st d0 s \<and> px st d c' = f)"
      using step.hyps(3) by (rule D(4))
    moreover have "px st d c' \<noteq> px st d0 s"
    proof
      assume "px st d c' = px st d0 s"
      with step.hyps(1) step.IH step.hyps(2,3) have "c' \<in> set []"
        by (rule D(5))
      then show False by simp
    qed
    ultimately show ?case using step.hyps(4) by auto
  qed
  assume c: "inb st c"
  show "px st d c = (if c \<in> region st d0 s then f else px st d0 c)"
  proof (cases "c \<in> region st d0 s")
    case True
    then show ?thesis using filled by simp
  next
    case False
    have "px st d c = px st d0 c \<or> (c \<in> region st d0 s \<and> px st d c = f)"
      using c by (rule D(4))
    then show ?thesis using False by simp
  qed
qed

lemma hex_val_le: "hex_val c \<le> 15"
  by (auto simp: hex_val_def Let_def)

lemma parseInt16_two: "length s = 2 \<Longrightarrow> parseInt16 s \<le> 255"
proof -
  assume "length s = 2"
  then obtain a b where s: "s = [a, b]"
    by (auto simp: length_Suc_conv eval_nat_numeral)
  have "hex_val a * 16 + hex_val b \<le> 15 * 16 + 15"
    using hex_val_le [of a] hex_val_le [of b] by linarith
  then show ?thesis by (simp add: s parseInt16_def)
qed

lemma regex_exec_Some:
  assumes "regex_exec s = Some (r, g, b)"
  shows "length r = 2 \<and> length g = 2 \<and> length b = 2 \<and> hex6_form s"
proof -
  define t where "t = (case s of [] \<Rightarrow> [] | c # r \<Rightarrow> if c = CHR ''#'' then r else s)"
  have t: "length t = 6" "list_all is_hex_digit t"
    and rgb: "r = take 2 t" "g = take 2 (drop 2 t)" "b = drop 4 t"
    using assms unfolding regex_exec_def t_def [symmetric] by (auto simp: Let_def split: if_splits)
  have "s = t \<or> s = CHR ''#'' # t"
    unfolding t_def by (cases s) auto
  then have "hex6_form s"
    unfolding hex6_form_def using t by (auto simp: list_all_iff)
  then show ?thesis using t(1) rgb by simp
qed

lemma hexToRgb_valid: "valid_rgba (hexToRgb s)"
proof (cases "regex_exec s")
  case None
  then show ?thesis by (simp add: hexToRgb_def)
next
  case (Some grp)
  obtain r g b where grp: "grp = (r, g, b)" by (cases grp) auto
  have "length r = 2" "length g = 2" "length b = 2"
    using regex_exec_Some [of s r g b] Some grp by simp_all
  then show ?thesis
    using Some grp by (simp add: hexToRgb_def parseInt16_two)
qed

lemma hexToRgb_not_hex6: "\<not> hex6_form s \<Longrightarrow> hexToRgb s = black"
proof -
  assume n: "\<not> hex6_form s"
  have "regex_exec s = None"
  proof (cases "regex_exec s")
    case None
    then show ?thesis .
  next
    case (Some grp)
    obtain r g b where "grp = (r, g, b)" by (cases grp) auto
    then have "hex6_form s" using regex_exec_Some [of s r g b] Some by simp
    then show ?thesis using n by simp
  qed
  then show ?thesis by (simp add: hexToRgb_def black_def)
qed

lemma hex6_form_length: "hex6_form s \<Longrightarrow> length s = 6 \<or> length s = 7"
  by (auto simp: hex6_form_def)

lemma length_toString16: "n < 256 \<Longrightarrow> length (padStart2 (toString16 n)) = 2"
proof -
  assume n: "n < 256"
  show ?thesis
  proof (cases "n < 16")
    case True
    then have "toString16 n = [hex_char n]"
      by (subst toString16.simps) simp
    then show ?thesis by (simp add: padStart2_def)
  next
    case False
    have "n div 16 < 16" using n by simp
    then have "toString16 (n div 16) = [hex_char (n div 16)]"
      by (subst toString16.simps) simp
    moreover have "toString16 n = toString16 (n div 16) @ [hex_char (n mod 16)]"
      using False by (subst toString16.simps) simp
    ultimately show ?thesis by (simp add: padStart2_def)
  qed
qed

lemma buildColor_length:
  "alpha < 255 \<Longrightarrow> length (buildColor h alpha) = length h + 2"
  by (simp add: buildColor_def toLowerCase_def length_toString16)

lemma floodFill_fills_region:
  assumes len: "int (length (workCtx tm)) = 4 * width (state tm) * height (state tm)"
    and s: "inb (state tm) (x, y)"
    and ne: "hexToRgb fillColor \<noteq> px (state tm) (workCtx tm) (x, y)"
  shows "\<exists>d'. floodFill x y fillColor tm = Some (tm\<lparr> workCtx := d' \<rparr>) \<and>
           length d' = length (workCtx tm) \<and>
           (\<forall>c. inb (state tm) c \<longrightarrow>
              px (state tm) d' c =
                (if c \<in> region (state tm) (workCtx tm) (x, y) then hexToRgb fillColor
                 else px (state tm) (workCtx tm) c))"
proof -
  let ?st = "state tm" and ?d = "workCtx tm" and ?f = "hexToRgb fillColor"
  have ne': "?f \<noteq> px ?st ?d (x, y)" by (rule ne)
  have inv: "fill_inv ?st ?d (x, y) ?f [(x, y)] ?d"
    using s ne' by (rule fill_inv_init)
  from floodFill_loop_inv [OF len s hexToRgb_valid ne' inv]
  obtain d' where run: "floodFill_loop ?st (px ?st ?d (x, y)) ?f [(x, y)] ?d = Some d'"
    and fin: "fill_inv ?st ?d (x, y) ?f [] d'" by blast
  have "floodFill x y fillColor tm = Some (tm\<lparr> workCtx := d' \<rparr>)"
    using ne run by (simp add: floodFill_def Let_def colorsMatch_eq px_def)
  moreover have "length d' = length ?d"
    using fill_inv_final(1) [OF s ne' fin] .
  moreover have "\<forall>c. inb ?st c \<longrightarrow>
              px ?st d' c = (if c \<in> region ?st ?d (x, y) then ?f else px ?st ?d c)"
    using fill_inv_final(2) [OF s ne' fin] by blast
  ultimately show ?thesis by blast
qed

lemma floodFill_same_colour:
  "hexToRgb fillColor = px (state tm) (workCtx tm) (x, y) \<Longrightarrow> floodFill x y fillColor tm = Some tm"
  by (simp add: floodFill_def Let_def colorsMatch_eq px_def)

lemma fill_tm_facts:
  "int (length (workCtx fill_tm)) = 4 * width (state fill_tm) * height (state fill_tm)"
  "width (state fill_tm) = 2" "height (state fill_tm) = 2"
  "getPixelColor (state fill_tm) 1 1 (workCtx fill_tm) = (Some 0, Some 0, Some 0, Some 0)"
  "getPixelColor (state fill_tm) 0 0 (workCtx fill_tm) = (Some 255, Some 0, Some 10, Some 255)"
  by (simp_all add: fill_tm_def ToolManager_new_def State_new_def grid2_def getPixelColor_def
      data_get_def)

lemma hexToRgb_010203: "hexToRgb ''#010203'' = (Some 1, Some 2, Some 3, Some 255)"
  by (simp add: hexToRgb_def regex_exec_def is_hex_digit_def parseInt16_def hex_val_def)

lemma hexToRgb_ff000a: "hexToRgb ''#ff000a'' = (Some 255, Some 0, Some 10, Some 255)"
  by (simp add: hexToRgb_def regex_exec_def is_hex_digit_def parseInt16_def hex_val_def)

lemma not_hex6_8digits: "\<not> hex6_form ''#01020380''"
  using hex6_form_length [of "''#01020380''"] by auto

text \<open>
  C4.  Let the canvas hold \<open>4 * width * height\<close> bytes, the seed be inside the grid and
  the fill colour differ from the seed's colour.  Then \<open>floodFill\<close> returns, the tool
  manager is unchanged but for the canvas bytes, and cell by cell the new bytes are
  the fill colour on the 4-connected component of the seed among the cells of the
  seed's colour, and the old bytes on every other cell; in particular every cell whose
  colour differed from the seed's keeps its colour.
\<close>

theorem floodFill_component:
  assumes "int (length (workCtx tm)) = 4 * width (state tm) * height (state tm)"
    and "0 \<le> x" "x < width (state tm)" "0 \<le> y" "y < height (state tm)"
    and "hexToRgb fillColor \<noteq> getPixelColor (state tm) x y (workCtx tm)"
  shows "\<exists>d'. floodFill x y fillColor tm = Some (tm\<lparr> workCtx := d' \<rparr>) \<and>
           length d' = length (workCtx tm) \<and>
           (\<forall>c. inb (state tm) c \<longrightarrow>
              px (state tm) d' c =
                (if c \<in> region (state tm) (workCtx tm) (x, y) then hexToRgb fillColor
                 else px (state tm) (workCtx tm) c)) \<and>
           (\<forall>c. inb (state tm) c \<and> px (state tm) (workCtx tm) c \<noteq> px (state tm) (workCtx tm) (x, y)
              \<longrightarrow> px (state tm) d' c = px (state tm) (workCtx tm) c)"
proof -
  have s: "inb (state tm) (x, y)" using assms(2-5) by (simp add: inb_def)
  have ne: "hexToRgb fillColor \<noteq> px (state tm) (workCtx tm) (x, y)"
    using assms(6) by (simp add: px_def)
  from floodFill_fills_region [OF assms(1) s ne]
  obtain d' where d': "floodFill x y fillColor tm = Some (tm\<lparr> workCtx := d' \<rparr>)"
    "length d' = length (workCtx tm)"
    "\<forall>c. inb (state tm) c \<longrightarrow>
              px (state tm) d' c =
                (if c \<in> region (state tm) (workCtx tm) (x, y) then hexToRgb fillColor
                 else px (state tm) (workCtx tm) c)" by blast
  have "px (state tm) d' c = px (state tm) (workCtx tm) c"
    if "inb (state tm) c" "px (state tm) (workCtx tm) c \<noteq> px (state tm) (workCtx tm) (x, y)" for c
  proof -
    have "c \<notin> region (state tm) (workCtx tm) (x, y)"
      using region_inb_px [OF s, of c "workCtx tm"] that(2) by blast
    then show ?thesis using d'(3) [rule_format, OF that(1)] by simp
  qed
  then show ?thesis using d' by blast
qed

theorem floodFill_component_witness:
  "int (length (workCtx fill_tm)) = 4 * width (state fill_tm) * height (state fill_tm) \<and>
   (0::int) \<le> 1 \<and> 1 < width (state fill_tm) \<and> 1 < height (state fill_tm) \<and>
   hexToRgb ''#010203'' \<noteq> getPixelColor (state fill_tm) 1 1 (workCtx fill_tm) \<and>
   (\<exists>d'. floodFill 1 1 ''#010203'' fill_tm = Some (fill_tm\<lparr> workCtx := d' \<rparr>) \<and>
      length d' = length (workCtx fill_tm) \<and>
      (\<forall>c. inb (state fill_tm) c \<longrightarrow>
         px (state fill_tm) d' c =
           (if c \<in> region (state fill_tm) (workCtx fill_tm) (1, 1) then hexToRgb ''#010203''
            else px (state fill_tm) (workCtx fill_tm) c)) \<and>
      (\<forall>c. inb (state fill_tm) c \<and>
            px (state fill_tm) (workCtx fill_tm) c \<noteq> px (state fill_tm) (workCtx fill_tm) (1, 1)
         \<longrightarrow> px (state fill_tm) d' c = px (state fill_tm) (workCtx fill_tm) c)) \<and>
   map_option workCtx (floodFill 1 1 ''#010203'' fill_tm) =
     Some [255, 0, 10, 255,  1, 2, 3, 255,  1, 2, 3, 255,  1, 2, 3, 255]"
proof -
  have h: "int (length (workCtx fill_tm)) = 4 * width (state fill_tm) * height (state fill_tm)"
    "(0::int) \<le> 1" "1 < width (state fill_tm)" "1 < height (state fill_tm)"
    "hexToRgb ''#010203'' \<noteq> getPixelColor (state fill_tm) 1 1 (workCtx fill_tm)"
    by (simp_all add: fill_tm_facts hexToRgb_010203)
  have r: "map_option workCtx (floodFill 1 1 ''#010203'' fill_tm) =
     Some [255, 0, 10, 255,  1, 2, 3, 255,  1, 2, 3, 255,  1, 2, 3, 255]"
    by code_simp
  show ?thesis
    using h r floodFill_component [OF h(1) h(2) h(3) h(2) h(4) h(5)] by blast
qed

text \<open>
  C7.  With the seed inside the grid, \<open>floodFill\<close> returns, and running it again with
  the same seed and colour on the result returns that result unchanged.  When the seed
  already has the fill colour, the first call returns the tool manager it was given.
\<close>

theorem floodFill_idempotent:
  assumes "int (length (workCtx tm)) = 4 * width (state tm) * height (state tm)"
    and "0 \<le> x" "x < width (state tm)" "0 \<le> y" "y < height (state tm)"
  shows "\<exists>tm1. floodFill x y C tm = Some tm1 \<and> floodFill x y C tm1 = Some tm1 \<and>
           (getPixelColor (state tm) x y (workCtx tm) = hexToRgb C \<longrightarrow> tm1 = tm)"
proof (cases "hexToRgb C = px (state tm) (workCtx tm) (x, y)")
  case True
  then have "floodFill x y C tm = Some tm" by (rule floodFill_same_colour)
  then show ?thesis by (intro exI [of _ tm]) simp
next
  case False
  have s: "inb (state tm) (x, y)" using assms(2-5) by (simp add: inb_def)
  from floodFill_fills_region [OF assms(1) s False]
  obtain d' where d': "floodFill x y C tm = Some (tm\<lparr> workCtx := d' \<rparr>)"
    "\<forall>c. inb (state tm) c \<longrightarrow>
              px (state tm) d' c =
                (if c \<in> region (state tm) (workCtx tm) (x, y) then hexToRgb C
                 else px (state tm) (workCtx tm) c)" by blast
  have "(x, y) \<in> region (state tm) (workCtx tm) (x, y)" by (rule region.seed)
  then have "px (state tm) d' (x, y) = hexToRgb C" using d'(2) s by simp
  then have "floodFill x y C (tm\<lparr> workCtx := d' \<rparr>) = Some (tm\<lparr> workCtx := d' \<rparr>)"
    using floodFill_same_colour [of C "tm\<lparr> workCtx := d' \<rparr>" x y] by simp
  then show ?thesis
    using d'(1) False by (intro exI [of _ "tm\<lparr> workCtx := d' \<rparr>"]) (simp add: px_def)
qed

theorem floodFill_idempotent_witness:
  "int (length (workCtx fill_tm)) = 4 * width (state fill_tm) * height (state fill_tm) \<and>
   (0::int) \<le> 1 \<and> 1 < width (state fill_tm) \<and> 1 < height (state fill_tm) \<and>
   (\<exists>tm1. floodFill 1 1 ''#010203'' fill_tm = Some tm1 \<and>
      floodFill 1 1 ''#010203'' tm1 = Some tm1 \<and>
      (getPixelColor (state fill_tm) 1 1 (workCtx fill_tm) = hexToRgb ''#010203'' \<longrightarrow>
       tm1 = fill_tm)) \<and>
   getPixelColor (state fill_tm) 0 0 (workCtx fill_tm) = hexToRgb ''#ff000a'' \<and>
   (\<exists>tm1. floodFill 0 0 ''#ff000a'' fill_tm = Some tm1 \<and>
      floodFill 0 0 ''#ff000a'' tm1 = Some tm1 \<and>
      (getPixelColor (state fill_tm) 0 0 (workCtx fill_tm) = hexToRgb ''#ff000a'' \<longrightarrow>
       tm1 = fill_tm))"
proof -
  have h: "int (length (workCtx fill_tm)) = 4 * width (state fill_tm) * height (state fill_tm)"
    "(0::int) \<le> 1" "1 < width (state fill_tm)" "1 < height (state fill_tm)"
    "(0::int) \<le> 0" "0 < width (state fill_tm)" "0 < height (state fill_tm)"
    by (simp_all add: fill_tm_facts)
  have e: "getPixelColor (state fill_tm) 0 0 (workCtx fill_tm) = hexToRgb ''#ff000a''"
    by (simp add: fill_tm_facts hexToRgb_ff000a)
  show ?thesis
    using h e floodFill_idempotent [OF h(1) h(2) h(3) h(2) h(4), of "''#010203''"]
      floodFill_idempotent [OF h(1) h(5) h(6) h(5) h(7), of "''#ff000a''"]
    by blast
qed

section \<open>Colour strings that are not six hexadecimal digits\<close>

text \<open>
  C9.  A string that is not an optional \<open>#\<close> followed by exactly six hexadecimal digits
  makes \<open>hexToRgb\<close> return opaque black.  For a seven-character colour and an alpha
  below 255, \<open>buildColor\<close> returns a nine-character string, which is such a string.
  A flood fill with such a colour, on a seed that is not already opaque black,
  recolours the seed's region with opaque black.
\<close>

theorem hexToRgb_fallback_black:
  "(\<not> hex6_form s \<longrightarrow> hexToRgb s = (Some 0, Some 0, Some 0, Some 255)) \<and>
   (length h = 7 \<and> alpha < 255 \<longrightarrow>
      \<not> hex6_form (buildColor h alpha) \<and>
      hexToRgb (buildColor h alpha) = (Some 0, Some 0, Some 0, Some 255)) \<and>
   (\<not> hex6_form s \<and>
    int (length (workCtx tm)) = 4 * width (state tm) * height (state tm) \<and>
    0 \<le> x \<and> x < width (state tm) \<and> 0 \<le> y \<and> y < height (state tm) \<and>
    getPixelColor (state tm) x y (workCtx tm) \<noteq> (Some 0, Some 0, Some 0, Some 255) \<longrightarrow>
      (\<exists>d'. floodFill x y s tm = Some (tm\<lparr> workCtx := d' \<rparr>) \<and>
         (\<forall>c. inb (state tm) c \<longrightarrow>
            px (state tm) d' c =
              (if c \<in> region (state tm) (workCtx tm) (x, y)
               then (Some 0, Some 0, Some 0, Some 255)
               else px (state tm) (workCtx tm) c))))"
proof (intro conjI impI)
  assume "\<not> hex6_form s"
  then show "hexToRgb s = (Some 0, Some 0, Some 0, Some 255)"
    using hexToRgb_not_hex6 [of s] by (simp add: black_def)
next
  assume a: "length h = 7 \<and> alpha < 255"
  then have "length (buildColor h alpha) = 9" by (simp add: buildColor_length)
  then show n: "\<not> hex6_form (buildColor h alpha)"
    using hex6_form_length [of "buildColor h alpha"] by auto
  then show "hexToRgb (buildColor h alpha) = (Some 0, Some 0, Some 0, Some 255)"
    using hexToRgb_not_hex6 [of "buildColor h alpha"] by (simp add: black_def)
next
  assume a: "\<not> hex6_form s \<and>
    int (length (workCtx tm)) = 4 * width (state tm) * height (state tm) \<and>
    0 \<le> x \<and> x < width (state tm) \<and> 0 \<le> y \<and> y < height (state tm) \<and>
    getPixelColor (state tm) x y (workCtx tm) \<noteq> (Some 0, Some 0, Some 0, Some 255)"
  then have b: "hexToRgb s = (Some 0, Some 0, Some 0, Some 255)"
    using hexToRgb_not_hex6 [of s] by (simp add: black_def)
  have s: "inb (state tm) (x, y)" using a by (simp add: inb_def)
  have len: "int (length (workCtx tm)) = 4 * width (state tm) * height (state tm)"
    using a by simp
  have ne: "hexToRgb s \<noteq> px (state tm) (workCtx tm) (x, y)"
    using a b by (auto simp: px_def)
  from floodFill_fills_region [OF len s ne]
  show "\<exists>d'. floodFill x y s tm = Some (tm\<lparr> workCtx := d' \<rparr>) \<and>
         (\<forall>c. inb (state tm) c \<longrightarrow>
            px (state tm) d' c =
              (if c \<in> region (state tm) (workCtx tm) (x, y)
               then (Some 0, Some 0, Some 0, Some 255)
               else px (state tm) (workCtx tm) c))"
    unfolding b by blast
qed
theorem hexToRgb_fallback_black_witness:
  "\<not> hex6_form ''#01020380'' \<and>
   hexToRgb ''#01020380'' = (Some 0, Some 0, Some 0, Some 255) \<and>
   length ''#010203'' = 7 \<and> (128::nat) < 255 \<and>
   buildColor ''#010203'' 128 = ''#01020380'' \<and>
   \<not> hex6_form (buildColor ''#010203'' 128) \<and>
   hexToRgb (buildColor ''#010203'' 128) = (Some 0, Some 0, Some 0, Some 255) \<and>
   int (length (workCtx fill_tm)) = 4 * width (state fill_tm) * height (state fill_tm) \<and>
   (0::int) \<le> 1 \<and> 1 < width (state fill_tm) \<and> 1 < height (state fill_tm) \<and>
   getPixelColor (state fill_tm) 1 1 (workCtx fill_tm) \<noteq> (Some 0, Some 0, Some 0, Some 255) \<and>
   (\<exists>d'. floodFill 1 1 ''#01020380'' fill_tm = Some (fill_tm\<lparr> workCtx := d' \<rparr>) \<and>
      (\<forall>c. inb (state fill_tm) c \<longrightarrow>
         px (state fill_tm) d' c =
           (if c \<in> region (state fill_tm) (workCtx fill_tm) (1, 1)
            then (Some 0, Some 0, Some 0, Some 255)
            else px (state fill_tm) (workCtx fill_tm) c))) \<and>
   map_option workCtx (floodFill 1 1 ''#01020380'' fill_tm) =
     Some [255, 0, 10, 255,  0, 0, 0, 255,  0, 0, 0, 255,  0, 0, 0, 255]"
proof -
  have n: "\<not> hex6_form ''#01020380''" by (rule not_hex6_8digits)
  have l: "length ''#010203'' = 7 \<and> (128::nat) < 255" by simp
  have b: "buildColor ''#010203'' 128 = ''#01020380''" by code_simp
  have h: "\<not> hex6_form ''#01020380'' \<and>
      int (length (workCtx fill_tm)) = 4 * width (state fill_tm) * height (state fill_tm) \<and>
      (0::int) \<le> 1 \<and> 1 < width (state fill_tm) \<and> (0::int) \<le> 1 \<and> 1 < height (state fill_tm) \<and>
      getPixelColor (state fill_tm) 1 1 (workCtx fill_tm) \<noteq> (Some 0, Some 0, Some 0, Some 255)"
    using n by (simp add: fill_tm_facts)
  have r: "map_option workCtx (floodFill 1 1 ''#01020380'' fill_tm) =
     Some [255, 0, 10, 255,  0, 0, 0, 255,  0, 0, 0, 255,  0, 0, 0, 255]"
    by code_simp
  show ?thesis
    using n l b h r hexToRgb_fallback_black [of "''#01020380''" "''#010203''" 128 fill_tm 1 1]
    by simp
qed

end
